theory Spec2Isabelle
  imports Complex_Main "HOL-Library.AList" "HOL-Library.Char_ord" "HOL-Library.List_Lexorder"
begin

section \<open>The vector index of core/indexing/LanceDbIndex.ts\<close>

text \<open>
  A shallow embedding of the class \<^verbatim>\<open>LanceDbIndex\<close>: the compute pipeline
  \<^verbatim>\<open>computeChunks\<close>, the refresh protocol \<^verbatim>\<open>update\<close> and the retrieval
  functions \<^verbatim>\<open>_retrieveForTag\<close> and \<^verbatim>\<open>retrieve\<close>.

  JavaScript numbers that carry a progress value or a distance are rationals here, so the
  arithmetic is exact; counts and line numbers are naturals. The argument \<^verbatim>\<open>n\<close> of
  \<^verbatim>\<open>retrieve\<close> is a count of results and is a natural number.
  The two stores are explicit: the vector store is an association list from table names to
  rows, the table \<^verbatim>\<open>lance_db_cache\<close> is the list of its records in storage order
  (for \<^verbatim>\<open>retrieve\<close>, which does not create the table, it may be missing).
  Every effect of \<^verbatim>\<open>update\<close> on its surroundings (a write to a store, a call of
  \<^verbatim>\<open>markComplete\<close>, a yielded progress event, a call of the embedding provider, a
  console warning) is appended to a trace, in the order in which the code performs it.
\<close>

subsection \<open>Data\<close>

type_synonym vector = "rat list"

record PathAndCacheKey =
  path :: string
  cacheKey :: string

text \<open>\<^verbatim>\<open>interface LanceDbRow\<close>. A vector may be \<^verbatim>\<open>undefined\<close> (\<open>None\<close>): the code
  reads \<^verbatim>\<open>embeddings[j]\<close> without a check of the length of \<^verbatim>\<open>embeddings\<close>.\<close>

record LanceDbRow =
  row_uuid :: string
  row_path :: string
  row_cachekey :: string
  row_vector :: "vector option"

text \<open>A row of the table \<^verbatim>\<open>lance_db_cache\<close> created by \<^verbatim>\<open>createSqliteCacheTable\<close>.\<close>

record CacheRecord =
  cr_uuid :: string
  cr_cacheKey :: string
  cr_path :: string
  cr_artifact_id :: string
  cr_vector :: vector
  cr_startLine :: nat
  cr_endLine :: nat
  cr_contents :: string

record Chunk =
  digest :: string
  filepath :: string
  startLine :: nat
  endLine :: nat
  index :: nat
  content :: string

record ChunkData =
  data_startLine :: nat
  data_endLine :: nat
  data_contents :: string

record BranchAndDir =
  directory :: string
  branch :: string

record IndexTag = BranchAndDir +
  tag_artifactId :: string

record RefreshIndexResults =
  compute :: "PathAndCacheKey list"
  del :: "PathAndCacheKey list"
  addTag :: "PathAndCacheKey list"
  removeTag :: "PathAndCacheKey list"

datatype IndexResultType = Compute | Delete | AddTag | RemoveTag

datatype ProgressStatus = Indexing | Done

record IndexingProgressUpdate =
  progress :: rat
  desc :: string
  status :: ProgressStatus

subsection \<open>Collaborators\<close>

text \<open>
  The embedding provider, the chunker, the file reader, the remote cache client, the uuid
  generator, \<^verbatim>\<open>tagToString\<close>, \<^verbatim>\<open>getBasename\<close> and the nearest-neighbour search of
  the vector store are imported by the file and are parameters of the model. A call of
  \<^verbatim>\<open>embed\<close> either raises or returns an array whose elements may be \<^verbatim>\<open>undefined\<close>.
  The \<open>k\<close>-th call of \<^verbatim>\<open>uuidv4()\<close> returns \<open>uuidv4 env k\<close>; nothing is assumed about
  the values.
\<close>

datatype EmbedResult = EmbedRaises | EmbedReturns "vector option list"

record EmbeddingsProvider =
  provider_id :: string
  maxChunkSize :: nat
  embed :: "string list \<Rightarrow> EmbedResult"

record RemoteChunk =
  rc_vector :: vector
  rc_startLine :: nat
  rc_endLine :: nat
  rc_contents :: string

datatype RemoteResponse = RemoteRaises | RemoteFiles "(string \<times> RemoteChunk list) list"

record IContinueServerClient =
  client_connected :: bool
  getFromIndexCache :: "string list \<Rightarrow> string \<Rightarrow> string option \<Rightarrow> RemoteResponse"

text \<open>A hit of a vector search: the row and its \<^verbatim>\<open>_distance\<close>.\<close>

record SearchHit =
  hit_uuid :: string
  hit_distance :: rat

record LanceDbIndex =
  embeddingsProvider :: EmbeddingsProvider
  readFile :: "string \<Rightarrow> string"
  continueServerClient :: "IContinueServerClient option"
  chunkDocument :: "string \<Rightarrow> string \<Rightarrow> nat \<Rightarrow> string \<Rightarrow> Chunk list"
  getBasename :: "string \<Rightarrow> string"
  tagToString :: "IndexTag \<Rightarrow> string"
  uuidv4 :: "nat \<Rightarrow> string"
  lancedb_connect :: bool
  table_search :: "LanceDbRow list \<Rightarrow> vector option \<Rightarrow> string option \<Rightarrow> nat \<Rightarrow> SearchHit list"

definition artifactId :: "LanceDbIndex \<Rightarrow> string" where
  "artifactId env = ''vectordb::'' @ provider_id (embeddingsProvider env)"

text \<open>The character class \<^verbatim>\<open>[\w-_.]\<close>: letters, digits, underscore, hyphen and dot.\<close>

definition isWordChar :: "char \<Rightarrow> bool" where
  "isWordChar c =
     (let k = (of_char c :: nat)
      in (48 \<le> k \<and> k \<le> 57) \<or> (65 \<le> k \<and> k \<le> 90) \<or> (97 \<le> k \<and> k \<le> 122) \<or> k = 95)"

definition keptInTableName :: "char \<Rightarrow> bool" where
  "keptInTableName c = (isWordChar c \<or> c = CHR ''-'' \<or> c = CHR ''_'' \<or> c = CHR ''.'')"

definition tableNameForTag :: "LanceDbIndex \<Rightarrow> IndexTag \<Rightarrow> string" where
  "tableNameForTag env tag = filter keptInTableName (tagToString env tag)"

subsection \<open>Effects and state\<close>

datatype Warning =
    EmbeddingFailedWarning
  | UnrequestedCacheKey string
  | RemoteCacheError
  | TableNotFound string

datatype Event =
    CacheInsert CacheRecord
  | CacheDelete string string string
  | TableOpen string
  | TableCreate string "LanceDbRow list"
  | TableAdd string "LanceDbRow list"
  | TableDelete string string string
  | MarkComplete "PathAndCacheKey list" IndexResultType
  | Yield IndexingProgressUpdate
  | EmbedCall "string list"
  | RemoteFetch "string list"
  | Warn Warning

datatype Error =
    EmbeddingUndefined | CacheWriteFailed | EmbedFailed | LanceDbNotLoaded | CacheTableMissing

text \<open>
  The state of one call of \<^verbatim>\<open>update\<close>: the two stores, the position of the uuid
  generator, and the local variables \<^verbatim>\<open>table\<close> (is the handle set?),
  \<^verbatim>\<open>needToCreateTable\<close> and \<^verbatim>\<open>accumulatedProgress\<close>, with the trace of effects.
  \<open>cache\<close> is the list of the records of the table \<^verbatim>\<open>lance_db_cache\<close> as
  \<^verbatim>\<open>createSqliteCacheTable\<close> leaves it, which \<^verbatim>\<open>update\<close> runs before it reads or
  writes a record: \<^verbatim>\<open>CREATE TABLE IF NOT EXISTS\<close> makes an empty table of a missing one
  and keeps the records of an existing one.
\<close>

record UpdateState =
  tables :: "(string \<times> LanceDbRow list) list"
  cache :: "CacheRecord list"
  next_uuid :: nat
  table :: bool
  needToCreateTable :: bool
  accumulatedProgress :: rat
  trace :: "Event list"

text \<open>A step either returns a value with the state it leaves, or raises and leaves a state.\<close>

datatype 'a Result = Returns 'a UpdateState | Raises Error UpdateState

definition emit :: "Event \<Rightarrow> UpdateState \<Rightarrow> UpdateState" where
  "emit e st = st\<lparr>trace := trace st @ [e]\<rparr>"

definition rowsOf :: "(string \<times> LanceDbRow list) list \<Rightarrow> string \<Rightarrow> LanceDbRow list" where
  "rowsOf db name = (case map_of db name of None \<Rightarrow> [] | Some rows \<Rightarrow> rows)"

definition tableAdd :: "string \<Rightarrow> LanceDbRow list \<Rightarrow> UpdateState \<Rightarrow> UpdateState" where
  "tableAdd name rows st =
     emit (TableAdd name rows)
       (st\<lparr>tables := AList.update name (rowsOf (tables st) name @ rows) (tables st)\<rparr>)"

definition createTable :: "string \<Rightarrow> LanceDbRow list \<Rightarrow> UpdateState \<Rightarrow> UpdateState" where
  "createTable name rows st =
     emit (TableCreate name rows)
       (st\<lparr>tables := AList.update name rows (tables st), table := True\<rparr>)"

definition openTable :: "string \<Rightarrow> UpdateState \<Rightarrow> UpdateState" where
  "openTable name st = emit (TableOpen name) (st\<lparr>table := True\<rparr>)"

text \<open>\<^verbatim>\<open>table?.delete(`cachekey = '...' AND path = '...'`)\<close>: nothing happens without a
  handle.\<close>

definition tableDelete :: "string \<Rightarrow> string \<Rightarrow> string \<Rightarrow> UpdateState \<Rightarrow> UpdateState" where
  "tableDelete name ck p st =
     (if table st
      then emit (TableDelete name ck p)
             (st\<lparr>tables := AList.update name
                   (filter (\<lambda>r. \<not> (row_cachekey r = ck \<and> row_path r = p)) (rowsOf (tables st) name))
                   (tables st)\<rparr>)
      else st)"

definition markComplete :: "PathAndCacheKey list \<Rightarrow> IndexResultType \<Rightarrow> UpdateState \<Rightarrow> UpdateState" where
  "markComplete items resultType st = emit (MarkComplete items resultType) st"

definition yield :: "rat \<Rightarrow> string \<Rightarrow> ProgressStatus \<Rightarrow> UpdateState \<Rightarrow> UpdateState" where
  "yield p d s st = emit (Yield \<lparr>progress = p, desc = d, status = s\<rparr>) st"

text \<open>
  The \<^verbatim>\<open>INSERT INTO lance_db_cache\<close> of a row. The column \<^verbatim>\<open>uuid\<close> is the primary
  key and \<^verbatim>\<open>vector\<close> is \<^verbatim>\<open>NOT NULL\<close>: the statement fails on a uuid that the table
  holds already, and on an undefined vector.
\<close>

definition cacheInsert ::
  "LanceDbIndex \<Rightarrow> LanceDbRow \<Rightarrow> nat \<Rightarrow> nat \<Rightarrow> string \<Rightarrow> UpdateState \<Rightarrow> unit Result" where
  "cacheInsert env row sl el cs st =
     (case row_vector row of
        None \<Rightarrow> Raises CacheWriteFailed st
      | Some v \<Rightarrow>
          if row_uuid row \<in> set (map cr_uuid (cache st)) then Raises CacheWriteFailed st
          else
            (let r = \<lparr>cr_uuid = row_uuid row, cr_cacheKey = row_cachekey row,
                      cr_path = row_path row, cr_artifact_id = artifactId env, cr_vector = v,
                      cr_startLine = sl, cr_endLine = el, cr_contents = cs\<rparr>
             in Returns () (emit (CacheInsert r) (st\<lparr>cache := cache st @ [r]\<rparr>))))"

definition cacheDelete :: "LanceDbIndex \<Rightarrow> string \<Rightarrow> string \<Rightarrow> UpdateState \<Rightarrow> UpdateState" where
  "cacheDelete env ck p st =
     emit (CacheDelete ck p (artifactId env))
       (st\<lparr>cache := filter (\<lambda>r. \<not> (cr_cacheKey r = ck \<and> cr_path r = p
                                     \<and> cr_artifact_id r = artifactId env)) (cache st)\<rparr>)"

subsection \<open>The compute pipeline: \<^verbatim>\<open>computeChunks\<close>\<close>

text \<open>
  What the generator hands to its consumer: a row tuple, the end-of-file marker, or an
  effect that the generator performs itself before its next \<^verbatim>\<open>yield\<close> (the call of
  the embedding provider, a console warning). Each file is read and chunked by the
  parameters \<open>readFile\<close> and \<open>chunkDocument\<close>.
\<close>

datatype GenItem =
    GenRow rat LanceDbRow ChunkData string
  | GenMarker PathAndCacheKey
  | GenEmbedCall "string list"
  | GenWarn Warning

text \<open>The loop over the chunks of one file: it stops at the first chunk with empty content.\<close>

fun collectChunks :: "Chunk list \<Rightarrow> Chunk list \<times> bool" where
  "collectChunks [] = ([], False)"
| "collectChunks (chunk # rest) =
     (if length (content chunk) = 0 then ([], True)
      else (case collectChunks rest of (chunks, hasEmptyChunks) \<Rightarrow> (chunk # chunks, hasEmptyChunks)))"

definition nthOrUndefined :: "'a option list \<Rightarrow> nat \<Rightarrow> 'a option" where
  "nthOrUndefined xs j = (if j < length xs then xs ! j else None)"

definition createRow ::
  "LanceDbIndex \<Rightarrow> nat \<Rightarrow> nat \<Rightarrow> PathAndCacheKey \<Rightarrow> Chunk list \<Rightarrow> vector option list \<Rightarrow> nat
     \<Rightarrow> nat \<Rightarrow> GenItem" where
  "createRow env N i item chunks embeddings u j =
     GenRow ((of_nat i + of_nat j / of_nat (length chunks)) / of_nat N)
       \<lparr>row_uuid = uuidv4 env (u + j), row_path = path item, row_cachekey = cacheKey item,
        row_vector = nthOrUndefined embeddings j\<rparr>
       \<lparr>data_startLine = startLine (chunks ! j), data_endLine = endLine (chunks ! j),
        data_contents = content (chunks ! j)\<rparr>
       (''Indexing '' @ getBasename env (filepath (chunks ! j)))"

text \<open>
  The body of the loop over \<^verbatim>\<open>items\<close> for the file at position \<open>i\<close> of \<open>N\<close>, with
  \<open>u\<close> uuids drawn so far: what it yields, and the error it throws if it throws.
\<close>

definition computeFile ::
  "LanceDbIndex \<Rightarrow> nat \<Rightarrow> nat \<Rightarrow> PathAndCacheKey \<Rightarrow> nat \<Rightarrow> GenItem list \<times> Error option" where
  "computeFile env N i item u =
     (let contents = readFile env (path item) in
      case collectChunks (chunkDocument env (path item) contents
                            (maxChunkSize (embeddingsProvider env)) (cacheKey item)) of
        (chunks, hasEmptyChunks) \<Rightarrow>
          if hasEmptyChunks then ([], None)
          else if length chunks > 20 then ([], None)
          else
            (case embed (embeddingsProvider env) (map content chunks) of
               EmbedRaises \<Rightarrow>
                 ([GenEmbedCall (map content chunks),
                   GenWarn EmbeddingFailedWarning], None)
             | EmbedReturns embeddings \<Rightarrow>
                 if None \<in> set embeddings
                 then ([GenEmbedCall (map content chunks)], Some EmbeddingUndefined)
                 else
                   (GenEmbedCall (map content chunks)
                      # map (createRow env N i item chunks embeddings u) [0..<length chunks]
                      @ [GenMarker item], None)))"

fun isGenRow :: "GenItem \<Rightarrow> bool" where
  "isGenRow (GenRow p r d s) = True"
| "isGenRow (GenMarker item) = False"
| "isGenRow (GenEmbedCall texts) = False"
| "isGenRow (GenWarn w) = False"

fun computeChunksFrom ::
  "LanceDbIndex \<Rightarrow> nat \<Rightarrow> nat \<Rightarrow> PathAndCacheKey list \<Rightarrow> nat \<Rightarrow> GenItem list \<times> Error option" where
  "computeChunksFrom env N i [] u = ([], None)"
| "computeChunksFrom env N i (item # rest) u =
     (case computeFile env N i item u of
        (out, Some e) \<Rightarrow> (out, Some e)
      | (out, None) \<Rightarrow>
          (case computeChunksFrom env N (Suc i) rest (u + length (filter isGenRow out)) of
             (out', r) \<Rightarrow> (out @ out', r)))"

definition computeChunks ::
  "LanceDbIndex \<Rightarrow> PathAndCacheKey list \<Rightarrow> nat \<Rightarrow> GenItem list \<times> Error option" where
  "computeChunks env items u = computeChunksFrom env (length items) 0 items u"

subsection \<open>The refresh protocol: \<^verbatim>\<open>update\<close>\<close>

text \<open>The closure \<^verbatim>\<open>addComputedLanceDbRows\<close>; \<open>existing\<close> is
  \<^verbatim>\<open>existingTables.includes(tableName)\<close>.\<close>

definition addComputedLanceDbRows ::
  "bool \<Rightarrow> string \<Rightarrow> PathAndCacheKey \<Rightarrow> LanceDbRow list \<Rightarrow> UpdateState \<Rightarrow> UpdateState" where
  "addComputedLanceDbRows existing tableName pathAndCacheKey computedRows st =
     markComplete [pathAndCacheKey] Compute
       (if table st then
          (if length computedRows > 0 then tableAdd tableName computedRows st else st)
        else if existing then
          (let st1 = (openTable tableName st)\<lparr>needToCreateTable := False\<rparr>
           in if length computedRows > 0 then tableAdd tableName computedRows st1 else st1)
        else if length computedRows > 0 then
          (createTable tableName computedRows st)\<lparr>needToCreateTable := False\<rparr>
        else st)"

text \<open>The remote cache: the rows of one answered file, each inserted into the cache.\<close>

fun remoteChunks ::
  "LanceDbIndex \<Rightarrow> string \<Rightarrow> string \<Rightarrow> RemoteChunk list \<Rightarrow> LanceDbRow list \<Rightarrow> UpdateState
     \<Rightarrow> (LanceDbRow list) Result" where
  "remoteChunks env p ck [] rows st = Returns rows st"
| "remoteChunks env p ck (chunk # chunks) rows st =
     (let row = \<lparr>row_uuid = uuidv4 env (next_uuid st), row_path = p, row_cachekey = ck,
                 row_vector = Some (rc_vector chunk)\<rparr>
      in case cacheInsert env row (rc_startLine chunk) (rc_endLine chunk) (rc_contents chunk)
                (st\<lparr>next_uuid := Suc (next_uuid st)\<rparr>) of
           Raises e st' \<Rightarrow> Raises e st'
         | Returns _ st' \<Rightarrow> remoteChunks env p ck chunks (rows @ [row]) st')"

text \<open>The loop over \<^verbatim>\<open>Object.entries(resp.files)\<close>. \<^verbatim>\<open>!path\<close> holds for a cache key
  that was not requested and for an empty path.\<close>

fun remoteFiles ::
  "LanceDbIndex \<Rightarrow> bool \<Rightarrow> string \<Rightarrow> PathAndCacheKey list \<Rightarrow> (string \<times> RemoteChunk list) list
     \<Rightarrow> UpdateState \<Rightarrow> unit Result" where
  "remoteFiles env existing tableName items [] st = Returns () st"
| "remoteFiles env existing tableName items ((ck, chunks) # rest) st =
     (case map_option path (find (\<lambda>item. cacheKey item = ck) items) of
        None \<Rightarrow>
          remoteFiles env existing tableName items rest (emit (Warn (UnrequestedCacheKey ck)) st)
      | Some p \<Rightarrow>
          if p = [] then
            remoteFiles env existing tableName items rest (emit (Warn (UnrequestedCacheKey ck)) st)
          else
            (case remoteChunks env p ck chunks [] st of
               Raises e st' \<Rightarrow> Raises e st'
             | Returns rows st' \<Rightarrow>
                 remoteFiles env existing tableName items rest
                   (addComputedLanceDbRows existing tableName \<lparr>path = p, cacheKey = ck\<rparr> rows st')))"

text \<open>The block \<^verbatim>\<open>if (this.continueServerClient?.connected) { try ... catch ... }\<close>. It
  returns the value of \<^verbatim>\<open>results.compute\<close> that the rest of \<^verbatim>\<open>update\<close> sees.\<close>

definition remotePhase ::
  "LanceDbIndex \<Rightarrow> bool \<Rightarrow> string \<Rightarrow> string option \<Rightarrow> PathAndCacheKey list \<Rightarrow> UpdateState
     \<Rightarrow> PathAndCacheKey list \<times> UpdateState" where
  "remotePhase env existing tableName repoName items st =
     (case continueServerClient env of
        None \<Rightarrow> (items, st)
      | Some client \<Rightarrow>
          if \<not> client_connected client then (items, st)
          else
            (let keys = map cacheKey items;
                 st1 = emit (RemoteFetch keys) st
             in case getFromIndexCache client keys ''embeddings'' repoName of
                  RemoteRaises \<Rightarrow> (items, emit (Warn RemoteCacheError) st1)
                | RemoteFiles files \<Rightarrow>
                    (case remoteFiles env existing tableName items files st1 of
                       Raises e st' \<Rightarrow> (items, emit (Warn RemoteCacheError) st')
                     | Returns _ st' \<Rightarrow>
                         (filter (\<lambda>item. map_of files (cacheKey item) = None) items, st'))))"

definition progressReservedForTagging :: rat where
  "progressReservedForTagging = 1 / 10"

text \<open>The loop \<^verbatim>\<open>for await (const update of this.computeChunks(results.compute))\<close> over
  what the generator yields; \<open>computedRows\<close> is the buffer of the current file.\<close>

fun computeLoop ::
  "LanceDbIndex \<Rightarrow> bool \<Rightarrow> string \<Rightarrow> GenItem list \<Rightarrow> LanceDbRow list \<Rightarrow> UpdateState \<Rightarrow> unit Result" where
  "computeLoop env existing tableName [] computedRows st = Returns () st"
| "computeLoop env existing tableName (GenRow p row d dsc # rest) computedRows st =
     (case cacheInsert env row (data_startLine d) (data_endLine d) (data_contents d)
             (st\<lparr>next_uuid := Suc (next_uuid st)\<rparr>) of
        Raises e st' \<Rightarrow> Raises e st'
      | Returns _ st' \<Rightarrow>
          computeLoop env existing tableName rest (computedRows @ [row])
            (yield (p * (1 - progressReservedForTagging)) dsc Indexing
               (st'\<lparr>accumulatedProgress := p * (1 - progressReservedForTagging)\<rparr>)))"
| "computeLoop env existing tableName (GenMarker item # rest) computedRows st =
     computeLoop env existing tableName rest []
       (addComputedLanceDbRows existing tableName item computedRows st)"
| "computeLoop env existing tableName (GenEmbedCall texts # rest) computedRows st =
     computeLoop env existing tableName rest computedRows (emit (EmbedCall texts) st)"
| "computeLoop env existing tableName (GenWarn w # rest) computedRows st =
     computeLoop env existing tableName rest computedRows (emit (Warn w) st)"

definition computePhase ::
  "LanceDbIndex \<Rightarrow> bool \<Rightarrow> string \<Rightarrow> PathAndCacheKey list \<Rightarrow> UpdateState \<Rightarrow> unit Result" where
  "computePhase env existing tableName items st =
     (case computeChunks env items (next_uuid st) of
        (out, thrown) \<Rightarrow>
          (case computeLoop env existing tableName out [] st of
             Raises e st' \<Rightarrow> Raises e st'
           | Returns _ st' \<Rightarrow>
               (case thrown of None \<Rightarrow> Returns () st' | Some e \<Rightarrow> Raises e st')))"

text \<open>The loop over \<^verbatim>\<open>results.addTag\<close>; \<open>k\<close> is \<^verbatim>\<open>results.addTag.length\<close>.\<close>

definition cachedItemsFor :: "LanceDbIndex \<Rightarrow> PathAndCacheKey \<Rightarrow> CacheRecord list \<Rightarrow> CacheRecord list" where
  "cachedItemsFor env item records =
     filter (\<lambda>r. cr_cacheKey r = cacheKey item \<and> cr_path r = path item
                  \<and> cr_artifact_id r = artifactId env) records"

definition lanceRowOf :: "PathAndCacheKey \<Rightarrow> CacheRecord \<Rightarrow> LanceDbRow" where
  "lanceRowOf item r =
     \<lparr>row_uuid = cr_uuid r, row_path = path item, row_cachekey = cacheKey item,
      row_vector = Some (cr_vector r)\<rparr>"

definition addTagItem :: "LanceDbIndex \<Rightarrow> string \<Rightarrow> nat \<Rightarrow> PathAndCacheKey \<Rightarrow> UpdateState \<Rightarrow> UpdateState" where
  "addTagItem env tableName k item st =
     (let cachedItems = cachedItemsFor env item (cache st);
          lanceRows = map (lanceRowOf item) cachedItems;
          st1 = (if length lanceRows > 0 then
                   (if needToCreateTable st then
                      (createTable tableName lanceRows st)\<lparr>needToCreateTable := False\<rparr>
                    else if \<not> table st then
                      tableAdd tableName lanceRows
                        ((openTable tableName st)\<lparr>needToCreateTable := False\<rparr>)
                    else tableAdd tableName lanceRows st)
                 else st);
          st2 = markComplete [\<lparr>path = path item, cacheKey = cacheKey item\<rparr>] AddTag st1;
          p = accumulatedProgress st2 + 1 / of_nat k / 3
      in yield p (''Indexing '' @ getBasename env (path item)) Indexing
           (st2\<lparr>accumulatedProgress := p\<rparr>))"

fun addTagLoop :: "LanceDbIndex \<Rightarrow> string \<Rightarrow> nat \<Rightarrow> PathAndCacheKey list \<Rightarrow> UpdateState \<Rightarrow> UpdateState" where
  "addTagLoop env tableName k [] st = st"
| "addTagLoop env tableName k (item # rest) st =
     addTagLoop env tableName k rest (addTagItem env tableName k item st)"

text \<open>The loop over \<^verbatim>\<open>toDel\<close>, entered only if \<^verbatim>\<open>!needToCreateTable\<close>.\<close>

fun toDelLoop :: "LanceDbIndex \<Rightarrow> string \<Rightarrow> nat \<Rightarrow> PathAndCacheKey list \<Rightarrow> UpdateState \<Rightarrow> UpdateState" where
  "toDelLoop env tableName k [] st = st"
| "toDelLoop env tableName k (item # rest) st =
     (let st1 = tableDelete tableName (cacheKey item) (path item) st;
          p = accumulatedProgress st1 + 1 / of_nat k / 3
      in toDelLoop env tableName k rest
           (yield p (''Stashing '' @ getBasename env (path item)) Indexing
              (st1\<lparr>accumulatedProgress := p\<rparr>)))"

text \<open>The loop over \<^verbatim>\<open>results.del\<close> that removes the records from the cache.\<close>

fun delLoop :: "LanceDbIndex \<Rightarrow> nat \<Rightarrow> PathAndCacheKey list \<Rightarrow> UpdateState \<Rightarrow> UpdateState" where
  "delLoop env k [] st = st"
| "delLoop env k (item # rest) st =
     (let st1 = cacheDelete env (cacheKey item) (path item) st;
          p = accumulatedProgress st1 + 1 / of_nat k / 3
      in delLoop env k rest
           (yield p (''Removing '' @ getBasename env (path item)) Indexing
              (st1\<lparr>accumulatedProgress := p\<rparr>)))"

text \<open>Everything of \<^verbatim>\<open>update\<close> after the loop over \<^verbatim>\<open>results.addTag\<close>.\<close>

definition removePhase :: "LanceDbIndex \<Rightarrow> string \<Rightarrow> RefreshIndexResults \<Rightarrow> UpdateState \<Rightarrow> UpdateState" where
  "removePhase env tableName results st =
     (let st1 = (if \<not> needToCreateTable st
                 then (let toDel = removeTag results @ del results
                       in toDelLoop env tableName (length toDel) toDel st)
                 else st);
          st2 = markComplete (removeTag results) RemoveTag st1;
          st3 = delLoop env (length (del results)) (del results) st2;
          st4 = markComplete (del results) Delete st3
      in yield 1 ''Completed Calculating Embeddings'' Done st4)"

text \<open>
  \<^verbatim>\<open>update(tag, results, markComplete, repoName)\<close>. The stores and the position of the
  uuid generator are read from the state passed in; the local variables and the trace
  start afresh (\<open>updateStart\<close>), and \<open>tableExists\<close> is
  \<^verbatim>\<open>existingTables.includes(tableName)\<close>.
\<close>

definition tableExists :: "LanceDbIndex \<Rightarrow> IndexTag \<Rightarrow> UpdateState \<Rightarrow> bool" where
  "tableExists env tag st0 = (tableNameForTag env tag \<in> set (map fst (tables st0)))"

definition updateStart :: "LanceDbIndex \<Rightarrow> IndexTag \<Rightarrow> UpdateState \<Rightarrow> UpdateState" where
  "updateStart env tag st0 =
     st0\<lparr>table := False, needToCreateTable := \<not> tableExists env tag st0,
         accumulatedProgress := 0, trace := []\<rparr>"

definition update ::
  "LanceDbIndex \<Rightarrow> IndexTag \<Rightarrow> RefreshIndexResults \<Rightarrow> string option \<Rightarrow> UpdateState \<Rightarrow> unit Result" where
  "update env tag results repoName st0 =
     (let tableName = tableNameForTag env tag;
          existing = tableExists env tag st0
      in case remotePhase env existing tableName repoName (compute results)
                (updateStart env tag st0) of
           (items, st1) \<Rightarrow>
             (case computePhase env existing tableName items st1 of
                Raises e st2 \<Rightarrow> Raises e st2
              | Returns _ st2 \<Rightarrow>
                  Returns ()
                    (removePhase env tableName results
                       (addTagLoop env tableName (length (addTag results)) (addTag results) st2))))"

subsection \<open>Retrieval: \<^verbatim>\<open>_retrieveForTag\<close> and \<^verbatim>\<open>retrieve\<close>\<close>

text \<open>
  \<^verbatim>\<open>_retrieveForTag\<close> returns the hits of one tag and the warning it prints, if any.
  \<^verbatim>\<open>if (directory)\<close> holds for a defined, non-empty string. The search of the vector
  store is the parameter \<open>table_search\<close>, called with the rows of the table, the query
  vector, the prefix of the \<^verbatim>\<open>where\<close> clause if there is one, and the limit.
\<close>

definition retrieveForTag ::
  "LanceDbIndex \<Rightarrow> IndexTag \<Rightarrow> nat \<Rightarrow> string option \<Rightarrow> vector option
     \<Rightarrow> (string \<times> LanceDbRow list) list \<Rightarrow> SearchHit list \<times> Warning list" where
  "retrieveForTag env tag n dir v db =
     (let tableName = tableNameForTag env tag in
      if tableName \<notin> set (map fst db) then ([], [TableNotFound tableName])
      else
        (let rows = rowsOf db tableName;
             results = (case dir of
                          None \<Rightarrow> table_search env rows v None n
                        | Some d \<Rightarrow> if d = [] then table_search env rows v None n
                                    else table_search env rows v (Some d) 300)
         in (take n results, [])))"

text \<open>The value of \<^verbatim>\<open>allResults\<close> after the sort and the slice. The sort of an array is
  stable, as \<open>sort_key\<close> is.\<close>

definition allResults ::
  "LanceDbIndex \<Rightarrow> nat \<Rightarrow> BranchAndDir list \<Rightarrow> string option \<Rightarrow> vector option
     \<Rightarrow> (string \<times> LanceDbRow list) list \<Rightarrow> SearchHit list" where
  "allResults env n tags dir v db =
     take n (sort_key hit_distance
       (concat (map (\<lambda>tag. fst (retrieveForTag env
                      \<lparr>directory = directory tag, branch = branch tag,
                       tag_artifactId = artifactId env\<rparr> n dir v db)) tags)))"

text \<open>
  \<^verbatim>\<open>SELECT * FROM lance_db_cache WHERE uuid in (...)\<close> on the records of the table. The
  statement has no \<^verbatim>\<open>ORDER BY\<close>: SQLite answers it by looking up the listed values in the
  index of the primary key \<^verbatim>\<open>uuid\<close>, so the records come in ascending order of their
  uuids, compared as strings of bytes, whatever the order of the list.
\<close>

definition selectByUuids :: "string list \<Rightarrow> CacheRecord list \<Rightarrow> CacheRecord list" where
  "selectByUuids uuids records = sort_key cr_uuid (filter (\<lambda>r. cr_uuid r \<in> set uuids) records)"

definition chunkOfRecord :: "CacheRecord \<Rightarrow> Chunk" where
  "chunkOfRecord d =
     \<lparr>digest = cr_cacheKey d, filepath = cr_path d, startLine = cr_startLine d,
      endLine = cr_endLine d, index = 0, content = cr_contents d\<rparr>"

text \<open>
  \<^verbatim>\<open>retrieve(query, n, tags, filterDirectory)\<close> on a vector store \<open>db\<close> and a SQLite
  database \<open>sqlite\<close>. \<^verbatim>\<open>retrieve\<close> does not create the table \<^verbatim>\<open>lance_db_cache\<close>,
  only \<^verbatim>\<open>update\<close> does (\<^verbatim>\<open>createSqliteCacheTable\<close>): \<open>sqlite\<close> is \<open>None\<close> for a
  database without the table, on which the \<^verbatim>\<open>SELECT\<close> fails, and the list of the records
  of the table otherwise.
\<close>

definition retrieve ::
  "LanceDbIndex \<Rightarrow> (string \<times> LanceDbRow list) list \<Rightarrow> CacheRecord list option
     \<Rightarrow> string \<Rightarrow> nat \<Rightarrow> BranchAndDir list \<Rightarrow> string option \<Rightarrow> Error + Chunk list" where
  "retrieve env db sqlite query n tags filterDirectory =
     (if \<not> lancedb_connect env then Inl LanceDbNotLoaded
      else
        (case embed (embeddingsProvider env) [query] of
           EmbedRaises \<Rightarrow> Inl EmbedFailed
         | EmbedReturns vs \<Rightarrow>
             (let v = nthOrUndefined vs 0;
                  hits = allResults env n tags filterDirectory v db
              in case sqlite of
                   None \<Rightarrow> Inl CacheTableMissing
                 | Some records \<Rightarrow>
                     Inr (map chunkOfRecord (selectByUuids (map hit_uuid hits) records)))))"

subsection \<open>Observations on a run\<close>

fun resultState :: "'a Result \<Rightarrow> UpdateState" where
  "resultState (Returns x st) = st"
| "resultState (Raises e st) = st"

text \<open>The progress values of the events that a run yields, in order.\<close>

fun progressValues :: "Event list \<Rightarrow> rat list" where
  "progressValues [] = []"
| "progressValues (Yield u # es) = progress u # progressValues es"
| "progressValues (e # es) = progressValues es"

text \<open>The value of \<^verbatim>\<open>results.compute\<close> after the remote phase of a call, which is the
  list that the local pipeline is run on.\<close>

definition localComputeItems ::
  "LanceDbIndex \<Rightarrow> IndexTag \<Rightarrow> RefreshIndexResults \<Rightarrow> string option \<Rightarrow> UpdateState
     \<Rightarrow> PathAndCacheKey list" where
  "localComputeItems env tag results repoName st0 =
     fst (remotePhase env (tableExists env tag st0) (tableNameForTag env tag) repoName
            (compute results) (updateStart env tag st0))"

text \<open>The chunker's output for a file, and the result of the call of \<^verbatim>\<open>embed\<close> that the
  pipeline makes for the file, if it makes one.\<close>

definition chunkerOutput :: "LanceDbIndex \<Rightarrow> PathAndCacheKey \<Rightarrow> Chunk list" where
  "chunkerOutput env item =
     chunkDocument env (path item) (readFile env (path item))
       (maxChunkSize (embeddingsProvider env)) (cacheKey item)"

definition embedCallOf :: "LanceDbIndex \<Rightarrow> PathAndCacheKey \<Rightarrow> EmbedResult option" where
  "embedCallOf env item =
     (case collectChunks (chunkerOutput env item) of
        (chunks, hasEmptyChunks) \<Rightarrow>
          if hasEmptyChunks \<or> length chunks > 20 then None
          else Some (embed (embeddingsProvider env) (map content chunks)))"

definition fileTexts :: "LanceDbIndex \<Rightarrow> PathAndCacheKey \<Rightarrow> string list" where
  "fileTexts env item = map content (fst (collectChunks (chunkerOutput env item)))"

subsection \<open>Reading a trace\<close>

text \<open>
  The row that a cache record stands for, and the file version \<^verbatim>\<open>(path, cacheKey)\<close> of a
  row and of a record. A record matches an item as in the \<^verbatim>\<open>WHERE\<close> clauses of
  \<^verbatim>\<open>update\<close>.
\<close>

definition rowOfRecord :: "CacheRecord \<Rightarrow> LanceDbRow" where
  "rowOfRecord r =
     \<lparr>row_uuid = cr_uuid r, row_path = cr_path r, row_cachekey = cr_cacheKey r,
      row_vector = Some (cr_vector r)\<rparr>"

definition itemOfRow :: "LanceDbRow \<Rightarrow> PathAndCacheKey" where
  "itemOfRow r = \<lparr>path = row_path r, cacheKey = row_cachekey r\<rparr>"

definition itemOfRecord :: "CacheRecord \<Rightarrow> PathAndCacheKey" where
  "itemOfRecord r = \<lparr>path = cr_path r, cacheKey = cr_cacheKey r\<rparr>"

definition matchesItem :: "LanceDbIndex \<Rightarrow> PathAndCacheKey \<Rightarrow> CacheRecord \<Rightarrow> bool" where
  "matchesItem env item r \<longleftrightarrow>
     cr_cacheKey r = cacheKey item \<and> cr_path r = path item \<and> cr_artifact_id r = artifactId env"

text \<open>
  What a trace holds: the records inserted into the cache, the rows added to any table and to
  the table of a given name, the texts of the calls of the embedding provider, and the item
  lists of the calls of \<^verbatim>\<open>markComplete\<close> with a given result type, each in the order of
  the trace.
\<close>

fun insertedRecords :: "Event list \<Rightarrow> CacheRecord list" where
  "insertedRecords [] = []"
| "insertedRecords (CacheInsert r # es) = r # insertedRecords es"
| "insertedRecords (e # es) = insertedRecords es"

fun rowsWritten :: "Event list \<Rightarrow> LanceDbRow list" where
  "rowsWritten [] = []"
| "rowsWritten (TableCreate n rows # es) = rows @ rowsWritten es"
| "rowsWritten (TableAdd n rows # es) = rows @ rowsWritten es"
| "rowsWritten (e # es) = rowsWritten es"

fun rowsWrittenTo :: "string \<Rightarrow> Event list \<Rightarrow> LanceDbRow list" where
  "rowsWrittenTo tn [] = []"
| "rowsWrittenTo tn (TableCreate n rows # es) =
     (if n = tn then rows @ rowsWrittenTo tn es else rowsWrittenTo tn es)"
| "rowsWrittenTo tn (TableAdd n rows # es) =
     (if n = tn then rows @ rowsWrittenTo tn es else rowsWrittenTo tn es)"
| "rowsWrittenTo tn (e # es) = rowsWrittenTo tn es"

fun embedCalls :: "Event list \<Rightarrow> string list list" where
  "embedCalls [] = []"
| "embedCalls (EmbedCall texts # es) = texts # embedCalls es"
| "embedCalls (e # es) = embedCalls es"

fun completions :: "IndexResultType \<Rightarrow> Event list \<Rightarrow> PathAndCacheKey list list" where
  "completions t [] = []"
| "completions t (MarkComplete items t' # es) =
     (if t' = t then items # completions t es else completions t es)"
| "completions t (e # es) = completions t es"

fun isTableDelete :: "Event \<Rightarrow> bool" where
  "isTableDelete (TableDelete n ck p) = True"
| "isTableDelete e = False"

fun isEmbedCall :: "Event \<Rightarrow> bool" where
  "isEmbedCall (EmbedCall texts) = True"
| "isEmbedCall e = False"

subsection \<open>What the phases may do\<close>

text \<open>
  \<open>computeEvent\<close> describes the effects that the remote phase and the compute phase have when
  they work on the list \<open>items\<close>: they write records and rows of these items only, into the
  table of the tag only, they delete nothing, and they complete items of the list with result
  type \<^verbatim>\<open>Compute\<close>. \<open>genOK\<close> is the same for what the generator yields.
  \<open>addTagEvent\<close>, \<open>delEvent\<close> and \<open>removeEvent\<close> are the kinds of events of the loop over
  \<^verbatim>\<open>results.addTag\<close>, of the loop over \<^verbatim>\<open>results.del\<close> and of everything after the
  loop over \<^verbatim>\<open>results.addTag\<close>.
\<close>

fun computeEvent :: "LanceDbIndex \<Rightarrow> string \<Rightarrow> PathAndCacheKey list \<Rightarrow> Event \<Rightarrow> bool" where
  "computeEvent env tn items (CacheInsert r) =
     (itemOfRecord r \<in> set items \<and> cr_artifact_id r = artifactId env)"
| "computeEvent env tn items (CacheDelete ck p a) = False"
| "computeEvent env tn items (TableOpen n) = (n = tn)"
| "computeEvent env tn items (TableCreate n rows) =
     (n = tn \<and> rows \<noteq> [] \<and> itemOfRow ` set rows \<subseteq> set items)"
| "computeEvent env tn items (TableAdd n rows) =
     (n = tn \<and> rows \<noteq> [] \<and> itemOfRow ` set rows \<subseteq> set items)"
| "computeEvent env tn items (TableDelete n ck p) = False"
| "computeEvent env tn items (MarkComplete cs t) = (t = Compute \<and> set cs \<subseteq> set items)"
| "computeEvent env tn items (Yield u) = (status u = Indexing)"
| "computeEvent env tn items (EmbedCall texts) = (texts \<in> fileTexts env ` set items)"
| "computeEvent env tn items (RemoteFetch keys) = True"
| "computeEvent env tn items (Warn w) = True"

fun genOK :: "LanceDbIndex \<Rightarrow> PathAndCacheKey list \<Rightarrow> GenItem \<Rightarrow> bool" where
  "genOK env items (GenRow p row d s) = (itemOfRow row \<in> set items)"
| "genOK env items (GenMarker c) = (c \<in> set items)"
| "genOK env items (GenEmbedCall texts) = (texts \<in> fileTexts env ` set items)"
| "genOK env items (GenWarn w) = True"

fun addTagEvent :: "Event \<Rightarrow> bool" where
  "addTagEvent (TableOpen n) = True"
| "addTagEvent (TableCreate n rows) = True"
| "addTagEvent (TableAdd n rows) = True"
| "addTagEvent (MarkComplete items t) = (t = AddTag)"
| "addTagEvent (Yield u) = True"
| "addTagEvent e = False"

fun delEvent :: "Event \<Rightarrow> bool" where
  "delEvent (CacheDelete ck p a) = True"
| "delEvent (Yield u) = True"
| "delEvent e = False"

fun removeEvent :: "Event \<Rightarrow> bool" where
  "removeEvent (TableDelete n ck p) = True"
| "removeEvent (CacheDelete ck p a) = True"
| "removeEvent (MarkComplete items t) = True"
| "removeEvent (Yield u) = True"
| "removeEvent e = False"

text \<open>
  \<open>tableInv\<close> relates the local variables of \<^verbatim>\<open>update\<close> to the vector store:
  \<^verbatim>\<open>needToCreateTable\<close> holds exactly if the store has no table of the name, and a handle
  or a table found at the start means that the store has one. \<open>computeStep\<close> is the relation
  between an earlier and a later state of a run of the remote and compute phases: the trace
  has grown by events that these phases may have, the cache by the records inserted, and
  \<open>tableInv\<close> and the distinctness of the uuids of the cache are kept.
\<close>

definition tableInv :: "bool \<Rightarrow> string \<Rightarrow> UpdateState \<Rightarrow> bool" where
  "tableInv existing tn st \<longleftrightarrow>
     (needToCreateTable st \<longleftrightarrow> tn \<notin> fst ` set (tables st))
     \<and> (table st \<longrightarrow> tn \<in> fst ` set (tables st))
     \<and> (existing \<longrightarrow> tn \<in> fst ` set (tables st))"

definition computeStep ::
  "LanceDbIndex \<Rightarrow> bool \<Rightarrow> string \<Rightarrow> PathAndCacheKey list \<Rightarrow> UpdateState \<Rightarrow> UpdateState \<Rightarrow> bool" where
  "computeStep env existing tn items st st' \<longleftrightarrow>
     (\<exists>new. trace st' = trace st @ new \<and> list_all (computeEvent env tn items) new
            \<and> cache st' = cache st @ insertedRecords new)
     \<and> (tableInv existing tn st \<longrightarrow> tableInv existing tn st')
     \<and> (distinct (map cr_uuid (cache st)) \<longrightarrow> distinct (map cr_uuid (cache st')))"

subsection \<open>The events of a file\<close>

text \<open>
  \<open>concerns f e\<close>: the event \<open>e\<close> concerns the file version \<open>f\<close>. These are the inserts and
  the deletions of cache records of \<open>f\<close>, the table inserts that hold a row of \<open>f\<close>, the
  predicate deletions of the rows of \<open>f\<close>, and the calls of \<^verbatim>\<open>markComplete\<close> that name
  \<open>f\<close>.

  \<open>fileEnds tn f recs\<close>: the ways in which \<^verbatim>\<open>update\<close> ends its work on a compute item \<open>f\<close>
  whose cache records are \<open>recs\<close>: one insert of exactly the rows of these records into the
  table \<open>tn\<close>, by \<^verbatim>\<open>table.add\<close> or as the rows that the table is created with, and then
  \<^verbatim>\<open>markComplete\<close> for \<open>f\<close> alone with result type \<^verbatim>\<open>Compute\<close>; without records
  there is no insert.

  \<open>isRecordOf\<close>: \<open>r\<close> is the cache record of the chunk \<open>c\<close> of the file, with the given
  uuid and the given vector, which is defined. \<open>fileRecords\<close>: \<open>recs\<close> are the records of all
  the chunks of the file, in the order of the chunks, with the uuids drawn from position \<open>u\<close>
  on and the vectors of the list \<open>embeddings\<close> at the positions of their chunks.
\<close>

fun concerns :: "PathAndCacheKey \<Rightarrow> Event \<Rightarrow> bool" where
  "concerns f (CacheInsert r) = (itemOfRecord r = f)"
| "concerns f (CacheDelete ck p a) = (ck = cacheKey f \<and> p = path f)"
| "concerns f (TableCreate n rows) = (f \<in> itemOfRow ` set rows)"
| "concerns f (TableAdd n rows) = (f \<in> itemOfRow ` set rows)"
| "concerns f (TableDelete n ck p) = (ck = cacheKey f \<and> p = path f)"
| "concerns f (MarkComplete cs t) = (f \<in> set cs)"
| "concerns f e = False"

definition fileEnds :: "string \<Rightarrow> PathAndCacheKey \<Rightarrow> CacheRecord list \<Rightarrow> Event list list" where
  "fileEnds tn f recs =
     (if recs = [] then [[MarkComplete [f] Compute]]
      else [[TableAdd tn (map rowOfRecord recs), MarkComplete [f] Compute],
            [TableCreate tn (map rowOfRecord recs), MarkComplete [f] Compute]])"

definition isRecordOf ::
  "LanceDbIndex \<Rightarrow> PathAndCacheKey \<Rightarrow> string \<Rightarrow> vector option \<Rightarrow> Chunk \<Rightarrow> CacheRecord \<Rightarrow> bool" where
  "isRecordOf env item uuid v c r \<longleftrightarrow>
     cr_uuid r = uuid \<and> v = Some (cr_vector r) \<and> matchesItem env item r
     \<and> cr_startLine r = startLine c \<and> cr_endLine r = endLine c \<and> cr_contents r = content c"

definition fileRecords ::
  "LanceDbIndex \<Rightarrow> PathAndCacheKey \<Rightarrow> vector option list \<Rightarrow> nat \<Rightarrow> CacheRecord list \<Rightarrow> bool" where
  "fileRecords env item embeddings u recs \<longleftrightarrow>
     (let chunks = fst (collectChunks (chunkerOutput env item))
      in list_all2 (\<lambda>j r. isRecordOf env item (uuidv4 env (u + j)) (nthOrUndefined embeddings j)
                             (chunks ! j) r)
           [0..<length chunks] recs)"

subsection \<open>A small index to run the functions on\<close>

text \<open>
  A provider that embeds a text as the vector of its length, a chunker that makes one chunk of
  each character of a file, and a vector store that returns the \<open>k\<close> rows nearest to the query
  by squared Euclidean distance and filters them afterwards.
\<close>

definition ex_chunker :: "string \<Rightarrow> string \<Rightarrow> nat \<Rightarrow> string \<Rightarrow> Chunk list" where
  "ex_chunker p contents m d =
     map (\<lambda>i. \<lparr>digest = d, filepath = p, startLine = i, endLine = i, index = i,
               content = [contents ! i]\<rparr>) [0..<length contents]"

definition ex_embed :: "string list \<Rightarrow> EmbedResult" where
  "ex_embed texts = EmbedReturns (map (\<lambda>t. Some [of_nat (length t)]) texts)"

definition ex_distance :: "vector option \<Rightarrow> vector option \<Rightarrow> rat" where
  "ex_distance a b =
     (case (a, b) of
        (Some x, Some y) \<Rightarrow> sum_list (map (\<lambda>(s, t). (s - t) * (s - t)) (zip x y))
      | _ \<Rightarrow> 0)"

definition ex_search ::
  "LanceDbRow list \<Rightarrow> vector option \<Rightarrow> string option \<Rightarrow> nat \<Rightarrow> SearchHit list" where
  "ex_search rows v w k =
     map (\<lambda>r. \<lparr>hit_uuid = row_uuid r, hit_distance = ex_distance (row_vector r) v\<rparr>)
       (filter (\<lambda>r. case w of None \<Rightarrow> True | Some d \<Rightarrow> take (length d) (row_path r) = d)
          (take k (sort_key (\<lambda>r. ex_distance (row_vector r) v) rows)))"

definition ex_readFile :: "string \<Rightarrow> string" where
  "ex_readFile p =
     (if p = ''a.ts'' then ''xy''
      else if p = ''big.ts'' then replicate 20 CHR ''z''
      else if p = ''huge.ts'' then replicate 21 CHR ''z''
      else [])"

definition ex_index :: LanceDbIndex where
  "ex_index =
     \<lparr>embeddingsProvider = \<lparr>provider_id = ''p1'', maxChunkSize = 512, embed = ex_embed\<rparr>,
      readFile = ex_readFile,
      continueServerClient = None,
      chunkDocument = ex_chunker,
      getBasename = (\<lambda>p. p),
      tagToString = (\<lambda>t. directory t @ ''::'' @ branch t @ ''::'' @ tag_artifactId t),
      uuidv4 = (\<lambda>k. ''u'' @ replicate k CHR ''+''),
      lancedb_connect = True,
      table_search = ex_search\<rparr>"

text \<open>The same index with a provider whose every call raises.\<close>

definition ex_index_offline :: LanceDbIndex where
  "ex_index_offline =
     ex_index\<lparr>embeddingsProvider :=
       \<lparr>provider_id = ''p1'', maxChunkSize = 512, embed = (\<lambda>texts. EmbedRaises)\<rparr>\<rparr>"

definition ex_tag :: IndexTag where
  "ex_tag = \<lparr>directory = ''/w'', branch = ''main'', tag_artifactId = ''vectordb::p1''\<rparr>"

definition ex_dirs :: "BranchAndDir list" where
  "ex_dirs = [\<lparr>directory = ''/w'', branch = ''main''\<rparr>]"

definition ex_old_record :: CacheRecord where
  "ex_old_record =
     \<lparr>cr_uuid = ''old'', cr_cacheKey = ''k0'', cr_path = ''old.ts'',
      cr_artifact_id = ''vectordb::p1'', cr_vector = [5], cr_startLine = 0, cr_endLine = 4,
      cr_contents = ''hello''\<rparr>"

text \<open>Stores that hold one indexed file, \<^verbatim>\<open>old.ts\<close>, under the tag \<open>ex_tag\<close>.\<close>

definition ex_store :: UpdateState where
  "ex_store =
     \<lparr>tables = [(''wmainvectordbp1'',
                  [lanceRowOf \<lparr>path = ''old.ts'', cacheKey = ''k0''\<rparr> ex_old_record])],
      cache = [ex_old_record], next_uuid = 0, table = False, needToCreateTable = False,
      accumulatedProgress = 0, trace = []\<rparr>"

definition ex_empty_store :: UpdateState where
  "ex_empty_store =
     \<lparr>tables = [], cache = [], next_uuid = 0, table = False, needToCreateTable = False,
      accumulatedProgress = 0, trace = []\<rparr>"

text \<open>A refresh that computes \<^verbatim>\<open>a.ts\<close> (two chunks) and deletes \<^verbatim>\<open>old.ts\<close>.\<close>

definition ex_results :: RefreshIndexResults where
  "ex_results =
     \<lparr>compute = [\<lparr>path = ''a.ts'', cacheKey = ''k1''\<rparr>],
      del = [\<lparr>path = ''old.ts'', cacheKey = ''k0''\<rparr>], addTag = [], removeTag = []\<rparr>"

text \<open>Two indexed chunks: the one stored first in the cache is the farther from the query
  \<^verbatim>\<open>"q"\<close>, whose embedding is \<open>[1]\<close>.\<close>

definition ex_far_record :: CacheRecord where
  "ex_far_record =
     \<lparr>cr_uuid = ''u1'', cr_cacheKey = ''k1'', cr_path = ''far.ts'',
      cr_artifact_id = ''vectordb::p1'', cr_vector = [9], cr_startLine = 0, cr_endLine = 3,
      cr_contents = ''far text''\<rparr>"

definition ex_near_record :: CacheRecord where
  "ex_near_record =
     \<lparr>cr_uuid = ''u2'', cr_cacheKey = ''k2'', cr_path = ''near.ts'',
      cr_artifact_id = ''vectordb::p1'', cr_vector = [2], cr_startLine = 0, cr_endLine = 7,
      cr_contents = ''near text''\<rparr>"

definition ex_db :: "(string \<times> LanceDbRow list) list" where
  "ex_db =
     [(''wmainvectordbp1'',
       [lanceRowOf \<lparr>path = ''far.ts'', cacheKey = ''k1''\<rparr> ex_far_record,
        lanceRowOf \<lparr>path = ''near.ts'', cacheKey = ''k2''\<rparr> ex_near_record])]"

text \<open>A provider that returns an undefined element for every text.\<close>

definition ex_index_undefined :: LanceDbIndex where
  "ex_index_undefined =
     ex_index\<lparr>embeddingsProvider :=
       \<lparr>provider_id = ''p1'', maxChunkSize = 512,
        embed = (\<lambda>texts. EmbedReturns (map (\<lambda>t. None) texts))\<rparr>\<rparr>"

text \<open>Files of 2, 20 and 21 chunks.\<close>

definition ex_a :: PathAndCacheKey where
  "ex_a = \<lparr>path = ''a.ts'', cacheKey = ''k1''\<rparr>"

definition ex_big :: PathAndCacheKey where
  "ex_big = \<lparr>path = ''big.ts'', cacheKey = ''k9''\<rparr>"

definition ex_huge :: PathAndCacheKey where
  "ex_huge = \<lparr>path = ''huge.ts'', cacheKey = ''k8''\<rparr>"

definition ex_compute_only :: "PathAndCacheKey \<Rightarrow> RefreshIndexResults" where
  "ex_compute_only item = \<lparr>compute = [item], del = [], addTag = [], removeTag = []\<rparr>"





definition ex_cache_only_store :: UpdateState where
  "ex_cache_only_store = ex_empty_store\<lparr>cache := [ex_old_record]\<rparr>"

definition ex_old :: PathAndCacheKey where
  "ex_old = \<lparr>path = ''old.ts'', cacheKey = ''k0''\<rparr>"

definition ex_tidy_results :: "PathAndCacheKey \<Rightarrow> RefreshIndexResults" where
  "ex_tidy_results item = \<lparr>compute = [item], del = [ex_old], addTag = [], removeTag = [ex_big]\<rparr>"

definition ex_index_flaky :: LanceDbIndex where
  "ex_index_flaky =
     ex_index\<lparr>embeddingsProvider :=
       \<lparr>provider_id = ''p1'', maxChunkSize = 512,
        embed = (\<lambda>texts. EmbedReturns
                   (map (\<lambda>t. if t = ''z'' then None else Some [of_nat (length t)]) texts))\<rparr>\<rparr>"

definition ex_tag2 :: IndexTag where
  "ex_tag2 = \<lparr>directory = ''/w'', branch = ''dev'', tag_artifactId = ''vectordb::p1''\<rparr>"

definition ex_after_compute :: UpdateState where
  "ex_after_compute =
     resultState (update ex_index_flaky ex_tag (ex_compute_only ex_a) None ex_empty_store)"

definition ex_addTag_results :: "PathAndCacheKey \<Rightarrow> RefreshIndexResults" where
  "ex_addTag_results item = \<lparr>compute = [item], del = [], addTag = [ex_a], removeTag = []\<rparr>"



section \<open>Properties\<close>

subsection \<open>Progress of \<^verbatim>\<open>update\<close>\<close>

text \<open>
  C1. The claim: the progress values that \<^verbatim>\<open>update\<close> emits never decrease and none
  exceeds 1. The code reserves a tenth of the range for the tagging phases
  (\<^verbatim>\<open>progressReservedForTagging\<close>), but each of the three passes after the compute phase
  adds a third in total, and the last event is 1. On the refresh \<open>ex_results\<close> (one file of
  two chunks to compute, one file to delete) the values are 0, 9/20, 47/60, 67/60, 1: the
  fourth exceeds 1 and the fifth is smaller than the fourth.
\<close>

theorem update_progress_overshoots:
  "progressValues (trace (resultState (update ex_index ex_tag ex_results None ex_store)))
     = [0, 9 / 20, 47 / 60, 67 / 60, 1]"
  by code_simp

subsection \<open>Retrieval\<close>

text \<open>
  C2. The claim: \<^verbatim>\<open>retrieve\<close> returns its chunks by ascending distance of their hits.
  The hits are sorted, but the chunks are the rows of a \<^verbatim>\<open>SELECT\<close> without
  \<^verbatim>\<open>ORDER BY\<close>, which come in the order of the cache table's key. The far chunk has the
  uuid \<open>u1\<close> and was stored first, the near one has the uuid \<open>u2\<close>: the sorted hits are
  \<open>u2\<close> (distance 1), \<open>u1\<close> (distance 64), and the chunks returned are the far one, then the
  near one.
\<close>

theorem retrieve_order_follows_cache:
  "allResults ex_index 2 ex_dirs None (Some [1]) ex_db
     = [\<lparr>hit_uuid = ''u2'', hit_distance = 1\<rparr>, \<lparr>hit_uuid = ''u1'', hit_distance = 64\<rparr>]
   \<and> retrieve ex_index ex_db (Some [ex_far_record, ex_near_record]) ''q'' 2 ex_dirs None
     = Inr [chunkOfRecord ex_far_record, chunkOfRecord ex_near_record]"
  by code_simp

lemma length_selectByUuids:
  assumes "distinct (map cr_uuid records)"
  shows "length (selectByUuids uuids records) \<le> length uuids"
proof -
  let ?sel = "filter (\<lambda>r. cr_uuid r \<in> set uuids) records"
  have d: "distinct (map cr_uuid ?sel)"
    using assms by (simp add: distinct_map_filter)
  have "set (map cr_uuid ?sel) \<subseteq> set uuids"
    by auto
  then have "card (set (map cr_uuid ?sel)) \<le> card (set uuids)"
    by (intro card_mono) simp_all
  moreover have "card (set (map cr_uuid ?sel)) = length ?sel"
    using distinct_card [OF d] by simp
  moreover have "card (set uuids) \<le> length uuids"
    by (rule card_length)
  moreover have "length (selectByUuids uuids records) = length ?sel"
    by (simp add: selectByUuids_def)
  ultimately show ?thesis by linarith
qed

lemma length_allResults: "length (allResults env n tags dir v db) \<le> n"
  by (simp add: allResults_def)

text \<open>
  C8. \<^verbatim>\<open>retrieve\<close> never returns more than \<open>n\<close> chunks, whatever the tags, the hits and
  the directory filter. The column \<^verbatim>\<open>uuid\<close> is the primary key of the cache table, so
  the uuids of its records are distinct; \<^verbatim>\<open>update\<close> keeps them so
  (\<open>update_keeps_primary_key\<close> below).
\<close>

theorem retrieve_at_most_n:
  assumes "\<forall>records. sqlite = Some records \<longrightarrow> distinct (map cr_uuid records)"
    and "retrieve env db sqlite query n tags filterDirectory = Inr chunks"
  shows "length chunks \<le> n"
proof -
  from assms(2) obtain vs records where s: "sqlite = Some records" and
    c: "chunks = map chunkOfRecord (selectByUuids
          (map hit_uuid (allResults env n tags filterDirectory (nthOrUndefined vs 0) db)) records)"
    by (auto simp: retrieve_def Let_def split: if_splits EmbedResult.splits option.splits)
  from assms(1) s have d: "distinct (map cr_uuid records)"
    by simp
  have "length chunks \<le> length (allResults env n tags filterDirectory (nthOrUndefined vs 0) db)"
    using length_selectByUuids [OF d,
        of "map hit_uuid (allResults env n tags filterDirectory (nthOrUndefined vs 0) db)"]
    by (simp add: c)
  then show ?thesis
    using length_allResults [of env n tags filterDirectory "nthOrUndefined vs 0" db] by linarith
qed

theorem retrieve_at_most_n_witness:
  "distinct (map cr_uuid [ex_far_record, ex_near_record])
   \<and> retrieve ex_index ex_db (Some [ex_far_record, ex_near_record]) ''q'' 1 ex_dirs None
       = Inr [chunkOfRecord ex_near_record]
   \<and> length [chunkOfRecord ex_near_record] \<le> 1"
proof -
  have k: "distinct (map cr_uuid [ex_far_record, ex_near_record])"
    by code_simp
  then have d: "\<forall>records. Some [ex_far_record, ex_near_record] = Some records
             \<longrightarrow> distinct (map cr_uuid records)"
    by simp
  have r: "retrieve ex_index ex_db (Some [ex_far_record, ex_near_record]) ''q'' 1 ex_dirs None
             = Inr [chunkOfRecord ex_near_record]"
    by code_simp
  show ?thesis using k r retrieve_at_most_n [OF d r] by simp
qed

lemma retrieveForTag_missing:
  "tableNameForTag env tag \<notin> set (map fst db) \<Longrightarrow> fst (retrieveForTag env tag n dir v db) = []"
  by (simp add: retrieveForTag_def)

lemma allResults_missing:
  assumes "\<forall>tag\<in>set tags. tableNameForTag env
             \<lparr>directory = directory tag, branch = branch tag, tag_artifactId = artifactId env\<rparr>
               \<notin> set (map fst db)"
  shows "allResults env n tags dir v db = []"
proof -
  have c: "concat (map (\<lambda>tag. fst (retrieveForTag env
                      \<lparr>directory = directory tag, branch = branch tag,
                       tag_artifactId = artifactId env\<rparr> n dir v db)) tags) = []"
    using assms by (induction tags) (simp_all add: retrieveForTag_missing)
  show ?thesis unfolding allResults_def c by simp
qed

text \<open>
  C3. The claim: with an empty list of tags, or with no table under any of the sanitized tag
  names, \<^verbatim>\<open>retrieve\<close> returns the empty list and does not fail. Before it looks at
  the tags, \<^verbatim>\<open>retrieve\<close> throws if the module of the vector store did not load, and
  it embeds the query; after the searches it reads the table \<^verbatim>\<open>lance_db_cache\<close>, which it
  does not create. So a call with an empty list of tags fails when the module is not loaded,
  when the provider raises, and on a database on which \<^verbatim>\<open>update\<close> has never run.
\<close>

theorem retrieve_empty_tags_raises:
  "retrieve (ex_index\<lparr>lancedb_connect := False\<rparr>) ex_db (Some [ex_far_record, ex_near_record])
       ''q'' 2 [] None = Inl LanceDbNotLoaded
   \<and> retrieve ex_index_offline ex_db (Some [ex_far_record, ex_near_record]) ''q'' 2 [] None
       = Inl EmbedFailed
   \<and> retrieve ex_index [] None ''q'' 2 [] None = Inl CacheTableMissing"
  by code_simp

text \<open>
  C3, as amended: if the module of the vector store is loaded, the embedding of the query
  returns and the table \<^verbatim>\<open>lance_db_cache\<close> exists, then \<^verbatim>\<open>retrieve\<close> returns the
  empty list when the list of tags is empty and when no table exists under any of the sanitized
  tag names.
\<close>

theorem retrieve_without_tables:
  assumes "lancedb_connect env"
    and "embed (embeddingsProvider env) [query] = EmbedReturns vs"
    and "sqlite = Some records"
    and "tags = [] \<or> (\<forall>tag\<in>set tags. tableNameForTag env
             \<lparr>directory = directory tag, branch = branch tag, tag_artifactId = artifactId env\<rparr>
               \<notin> set (map fst db))"
  shows "retrieve env db sqlite query n tags filterDirectory = Inr []"
proof -
  from assms(4) have "\<forall>tag\<in>set tags. tableNameForTag env
             \<lparr>directory = directory tag, branch = branch tag, tag_artifactId = artifactId env\<rparr>
               \<notin> set (map fst db)"
    by auto
  then have "allResults env n tags filterDirectory (nthOrUndefined vs 0) db = []"
    by (rule allResults_missing)
  with assms(1,2,3) show ?thesis
    by (simp add: retrieve_def selectByUuids_def)
qed

theorem retrieve_without_tables_witness:
  "retrieve ex_index ex_db (Some [ex_far_record, ex_near_record]) ''q'' 2 [] None = Inr []
   \<and> retrieve ex_index ex_db (Some [ex_far_record, ex_near_record]) ''q'' 2
        [\<lparr>directory = ''/other'', branch = ''dev''\<rparr>] None = Inr []"
proof -
  have c: "lancedb_connect ex_index"
    by code_simp
  have e: "embed (embeddingsProvider ex_index) [''q''] = EmbedReturns [Some [1]]"
    by code_simp
  have m: "\<forall>tag\<in>set [\<lparr>directory = ''/other'', branch = ''dev''\<rparr>]. tableNameForTag ex_index
             \<lparr>directory = directory tag, branch = branch tag, tag_artifactId = artifactId ex_index\<rparr>
               \<notin> set (map fst ex_db)"
    by code_simp
  show ?thesis
    using retrieve_without_tables [OF c e refl, of "[]" ex_db]
      retrieve_without_tables [OF c e refl disjI2, OF m]
    by simp
qed

subsection \<open>The compute pipeline\<close>




lemma computeFile_embed_raises:
  assumes "embedCallOf env item = Some EmbedRaises"
  shows "computeFile env N i item u =
           ([GenEmbedCall (fileTexts env item), GenWarn EmbeddingFailedWarning], None)"
  using assms
  by (auto simp: embedCallOf_def computeFile_def chunkerOutput_def fileTexts_def
           split: prod.splits if_splits)

lemma computeFile_embed_undefined:
  assumes "embedCallOf env item = Some (EmbedReturns vs)" and "None \<in> set vs"
  shows "computeFile env N i item u =
           ([GenEmbedCall (fileTexts env item)], Some EmbeddingUndefined)"
  using assms
  by (auto simp: embedCallOf_def computeFile_def chunkerOutput_def fileTexts_def
           split: prod.splits if_splits)

lemma computeChunksFrom_throws:
  assumes "embedCallOf env item = Some (EmbedReturns vs)" and "None \<in> set vs"
    and "item \<in> set items"
  shows "snd (computeChunksFrom env N i items u) \<noteq> None"
  using assms(3)
proof (induction items arbitrary: i u)
  case Nil
  then show ?case by simp
next
  case (Cons x rest)
  show ?case
  proof (cases "computeFile env N i x u")
    case (Pair out thrown)
    show ?thesis
    proof (cases thrown)
      case (Some e)
      with Pair show ?thesis by simp
    next
      case None
      with Pair have "x \<noteq> item"
        using computeFile_embed_undefined [OF assms(1,2), of N i u] by auto
      with Cons.prems have "item \<in> set rest" by simp
      from Cons.IH [OF this, of "Suc i" "u + length (filter isGenRow out)"] Pair None
      show ?thesis
        by (auto split: prod.splits)
    qed
  qed
qed

lemma computePhase_throws:
  assumes "snd (computeChunks env items (next_uuid st)) \<noteq> None"
  shows "\<exists>e st'. computePhase env existing tableName items st = Raises e st'"
proof (cases "computeChunks env items (next_uuid st)")
  case (Pair out thrown)
  with assms obtain e where "thrown = Some e" by auto
  with Pair show ?thesis
    by (cases "computeLoop env existing tableName out [] st") (simp_all add: computePhase_def)
qed

text \<open>
  C5. If the call of \<^verbatim>\<open>embed\<close> for a file raises, the generator warns, yields
  neither a row nor the marker of the file, and goes on with the next file as if the file had
  not been there; the consumer does nothing for the file but record the two effects, so no
  \<^verbatim>\<open>markComplete\<close> is called for it. If the call returns with an undefined element for
  a file that the local pipeline runs on, the call of \<^verbatim>\<open>update\<close> raises.
\<close>

theorem embed_failure_policy:
  "(embedCallOf env item = Some EmbedRaises \<longrightarrow>
      computeChunksFrom env N i (item # rest) u =
        (GenEmbedCall (fileTexts env item) # GenWarn EmbeddingFailedWarning
           # fst (computeChunksFrom env N (Suc i) rest u),
         snd (computeChunksFrom env N (Suc i) rest u))
      \<and> computeLoop env existing tableName
           (GenEmbedCall (fileTexts env item) # GenWarn EmbeddingFailedWarning
              # out) rows st
         = computeLoop env existing tableName out rows
             (emit (Warn EmbeddingFailedWarning) (emit (EmbedCall (fileTexts env item)) st)))
   \<and> (embedCallOf env item = Some (EmbedReturns vs) \<and> None \<in> set vs
        \<and> item \<in> set (localComputeItems env tag results repoName st0) \<longrightarrow>
      (\<exists>e st'. update env tag results repoName st0 = Raises e st'))"
proof (intro conjI impI)
  assume "embedCallOf env item = Some EmbedRaises"
  then show "computeChunksFrom env N i (item # rest) u =
        (GenEmbedCall (fileTexts env item) # GenWarn EmbeddingFailedWarning
           # fst (computeChunksFrom env N (Suc i) rest u),
         snd (computeChunksFrom env N (Suc i) rest u))"
    by (simp add: computeFile_embed_raises split: prod.splits)
next
  show "computeLoop env existing tableName
           (GenEmbedCall (fileTexts env item) # GenWarn EmbeddingFailedWarning
              # out) rows st
         = computeLoop env existing tableName out rows
             (emit (Warn EmbeddingFailedWarning) (emit (EmbedCall (fileTexts env item)) st))"
    by simp
next
  assume a: "embedCallOf env item = Some (EmbedReturns vs) \<and> None \<in> set vs
        \<and> item \<in> set (localComputeItems env tag results repoName st0)"
  obtain items st1 where r: "remotePhase env (tableExists env tag st0) (tableNameForTag env tag)
      repoName (compute results) (updateStart env tag st0) = (items, st1)"
    by (cases "remotePhase env (tableExists env tag st0) (tableNameForTag env tag)
      repoName (compute results) (updateStart env tag st0)")
  with a have "item \<in> set items"
    by (simp add: localComputeItems_def)
  with a have "snd (computeChunks env items (next_uuid st1)) \<noteq> None"
    using computeChunksFrom_throws [of env item vs items "length items" 0 "next_uuid st1"]
    by (simp add: computeChunks_def)
  then obtain e st' where
    "computePhase env (tableExists env tag st0) (tableNameForTag env tag) items st1 = Raises e st'"
    using computePhase_throws by blast
  with r show "\<exists>e st'. update env tag results repoName st0 = Raises e st'"
    by (simp add: update_def)
qed

theorem embed_failure_policy_witness:
  "computeChunksFrom ex_index_offline 2 0 [ex_a, ex_huge] 0 =
     ([GenEmbedCall [''x'', ''y''], GenWarn EmbeddingFailedWarning], None)
   \<and> (\<exists>e st'. update ex_index_undefined ex_tag ex_results None ex_store = Raises e st')"
proof -
  have r: "embedCallOf ex_index_offline ex_a = Some EmbedRaises"
    by code_simp
  have t: "fileTexts ex_index_offline ex_a = [''x'', ''y'']"
    by code_simp
  have n: "computeChunksFrom ex_index_offline 2 1 [ex_huge] 0 = ([], None)"
    by code_simp
  have u: "embedCallOf ex_index_undefined ex_a = Some (EmbedReturns [None, None])
        \<and> None \<in> set [None :: vector option, None]
        \<and> ex_a \<in> set (localComputeItems ex_index_undefined ex_tag ex_results None ex_store)"
    by code_simp
  show ?thesis
    using r t n u
      embed_failure_policy [where env = ex_index_offline and item = ex_a and N = 2 and i = 0
        and rest = "[ex_huge]" and u = 0]
      embed_failure_policy [where env = ex_index_undefined and item = ex_a
        and vs = "[None, None]" and tag = ex_tag and results = ex_results and repoName = None
        and ?st0.0 = ex_store]
    by simp
qed

subsection \<open>The remote and the compute phase, step by step\<close>

lemma insertedRecords_append [simp]:
  "insertedRecords (xs @ ys) = insertedRecords xs @ insertedRecords ys"
  by (induction xs rule: insertedRecords.induct) simp_all

lemma computeStep_refl [simp]: "computeStep env existing tn items st st"
  by (simp add: computeStep_def)

lemma computeStep_trans:
  assumes "computeStep env existing tn items st st1" and "computeStep env existing tn items st1 st2"
  shows "computeStep env existing tn items st st2"
proof -
  from assms(1) obtain new1 where
    n1: "trace st1 = trace st @ new1" "list_all (computeEvent env tn items) new1"
        "cache st1 = cache st @ insertedRecords new1"
    and i1: "tableInv existing tn st \<longrightarrow> tableInv existing tn st1"
    and d1: "distinct (map cr_uuid (cache st)) \<longrightarrow> distinct (map cr_uuid (cache st1))"
    by (auto simp: computeStep_def)
  from assms(2) obtain new2 where
    n2: "trace st2 = trace st1 @ new2" "list_all (computeEvent env tn items) new2"
        "cache st2 = cache st1 @ insertedRecords new2"
    and i2: "tableInv existing tn st1 \<longrightarrow> tableInv existing tn st2"
    and d2: "distinct (map cr_uuid (cache st1)) \<longrightarrow> distinct (map cr_uuid (cache st2))"
    by (auto simp: computeStep_def)
  have "trace st2 = trace st @ (new1 @ new2)"
    "list_all (computeEvent env tn items) (new1 @ new2)"
    "cache st2 = cache st @ insertedRecords (new1 @ new2)"
    using n1 n2 by simp_all
  with i1 i2 d1 d2 show ?thesis
    unfolding computeStep_def by blast
qed

lemma computeStep_emit:
  assumes "computeEvent env tn items e" and "insertedRecords [e] = []"
  shows "computeStep env existing tn items st (emit e st)"
  using assms by (auto simp: computeStep_def emit_def tableInv_def)

lemma computeStep_locals:
  "computeStep env existing tn items st (st\<lparr>next_uuid := k\<rparr>)"
  "computeStep env existing tn items st (st\<lparr>accumulatedProgress := p\<rparr>)"
  by (simp_all add: computeStep_def tableInv_def)

lemma cacheInsert_Raises:
  "cacheInsert env row sl el cs st = Raises e st' \<Longrightarrow> st' = st"
  by (auto simp: cacheInsert_def Let_def split: option.splits if_splits)

lemma cacheInsert_Returns:
  assumes "cacheInsert env row sl el cs st = Returns x st'"
  shows "\<exists>r. rowOfRecord r = row \<and> cr_artifact_id r = artifactId env
            \<and> cr_startLine r = sl \<and> cr_endLine r = el \<and> cr_contents r = cs
            \<and> cr_uuid r \<notin> cr_uuid ` set (cache st)
            \<and> st' = emit (CacheInsert r) (st\<lparr>cache := cache st @ [r]\<rparr>)"
proof (cases "row_vector row")
  case None
  with assms show ?thesis by (simp add: cacheInsert_def)
next
  case (Some v)
  let ?r = "\<lparr>cr_uuid = row_uuid row, cr_cacheKey = row_cachekey row,
             cr_path = row_path row, cr_artifact_id = artifactId env, cr_vector = v,
             cr_startLine = sl, cr_endLine = el, cr_contents = cs\<rparr>"
  from assms Some have "row_uuid row \<notin> cr_uuid ` set (cache st)"
    and "st' = emit (CacheInsert ?r) (st\<lparr>cache := cache st @ [?r]\<rparr>)"
    by (auto simp: cacheInsert_def Let_def split: if_splits)
  moreover from Some have "rowOfRecord ?r = row"
    by (simp add: rowOfRecord_def)
  ultimately show ?thesis
    by (intro exI [of _ ?r]) simp
qed

lemma itemOfRecord_row [simp]: "itemOfRow (rowOfRecord r) = itemOfRecord r"
  by (simp add: itemOfRow_def itemOfRecord_def rowOfRecord_def)

lemma computeStep_cacheInsert:
  assumes "cacheInsert env row sl el cs st = Returns x st'" and "itemOfRow row \<in> set items"
  shows "computeStep env existing tn items st st'"
proof -
  from cacheInsert_Returns [OF assms(1)] obtain r where
    r: "rowOfRecord r = row" "cr_artifact_id r = artifactId env"
       "st' = emit (CacheInsert r) (st\<lparr>cache := cache st @ [r]\<rparr>)"
       "cr_uuid r \<notin> cr_uuid ` set (cache st)"
    by blast
  from r(1) assms(2) have "itemOfRecord r \<in> set items"
    by (metis itemOfRecord_row)
  with r show ?thesis
    by (auto simp: computeStep_def emit_def tableInv_def)
qed

lemma keys_update: "fst ` set (AList.update k v al) = insert k (fst ` set al)"
  by (simp add: dom_update)

lemma computeStep_addComputed:
  assumes "item \<in> set items" and "itemOfRow ` set rows \<subseteq> set items"
  shows "computeStep env existing tn items st (addComputedLanceDbRows existing tn item rows st)"
  using assms
  by (auto simp: computeStep_def addComputedLanceDbRows_def markComplete_def tableAdd_def
        createTable_def openTable_def emit_def tableInv_def keys_update Let_def)

lemma computeEvent_mono:
  "set items' \<subseteq> set items \<Longrightarrow> computeEvent env tn items' e \<Longrightarrow> computeEvent env tn items e"
  by (cases e) auto

lemma computeStep_mono:
  assumes "set items' \<subseteq> set items" and "computeStep env existing tn items' st st'"
  shows "computeStep env existing tn items st st'"
proof -
  have "list_all (computeEvent env tn items') new \<Longrightarrow> list_all (computeEvent env tn items) new"
    for new
    using computeEvent_mono [OF assms(1)] by (induction new) auto
  with assms(2) show ?thesis
    unfolding computeStep_def by blast
qed

lemma remoteChunks_step:
  assumes "\<lparr>path = p, cacheKey = ck\<rparr> \<in> set items"
  shows "computeStep env existing tn items st (resultState (remoteChunks env p ck chunks rows st))"
proof (induction chunks arbitrary: rows st)
  case Nil
  show ?case by simp
next
  case (Cons chunk chunks)
  let ?row = "\<lparr>row_uuid = uuidv4 env (next_uuid st), row_path = p, row_cachekey = ck,
               row_vector = Some (rc_vector chunk)\<rparr>"
  let ?st = "st\<lparr>next_uuid := Suc (next_uuid st)\<rparr>"
  show ?case
  proof (cases "cacheInsert env ?row (rc_startLine chunk) (rc_endLine chunk) (rc_contents chunk) ?st")
    case (Raises e st')
    then have "st' = ?st" by (rule cacheInsert_Raises)
    with Raises show ?thesis
      by (simp add: Let_def computeStep_locals)
  next
    case (Returns x st')
    have "itemOfRow ?row \<in> set items"
      using assms by (simp add: itemOfRow_def)
    with Returns have "computeStep env existing tn items ?st st'"
      by (rule computeStep_cacheInsert)
    then have "computeStep env existing tn items st st'"
      using computeStep_locals(1) computeStep_trans by blast
    moreover note Cons.IH [where rows = "rows @ [?row]" and st = st']
    ultimately show ?thesis
      using Returns by (simp add: Let_def) (rule computeStep_trans)
  qed
qed

lemma remoteChunks_rows:
  assumes "remoteChunks env p ck chunks rows st = Returns rows' st'"
    and "itemOfRow ` set rows \<subseteq> {\<lparr>path = p, cacheKey = ck\<rparr>}"
  shows "itemOfRow ` set rows' \<subseteq> {\<lparr>path = p, cacheKey = ck\<rparr>}"
  using assms
proof (induction chunks arbitrary: rows st)
  case Nil
  then show ?case by simp
next
  case (Cons chunk chunks)
  let ?row = "\<lparr>row_uuid = uuidv4 env (next_uuid st), row_path = p, row_cachekey = ck,
               row_vector = Some (rc_vector chunk)\<rparr>"
  from Cons.prems(1) obtain x st1 where
    "remoteChunks env p ck chunks (rows @ [?row]) st1 = Returns rows' st'"
    by (auto simp: Let_def split: Result.splits)
  moreover have "itemOfRow ` set (rows @ [?row]) \<subseteq> {\<lparr>path = p, cacheKey = ck\<rparr>}"
    using Cons.prems(2) by (simp add: itemOfRow_def)
  ultimately show ?case by (rule Cons.IH)
qed

lemma item_eta: "\<lparr>path = path item, cacheKey = cacheKey item\<rparr> = (item :: PathAndCacheKey)"
  by (cases item) simp

lemma find_item:
  assumes "find (\<lambda>item. cacheKey item = ck) items = Some item"
  shows "\<lparr>path = path item, cacheKey = ck\<rparr> \<in> set items"
proof -
  from assms have "item \<in> set items" and "cacheKey item = ck"
    by (auto simp: find_Some_iff)
  then show ?thesis by (auto simp: item_eta)
qed

lemma remoteFiles_step:
  "computeStep env existing tn items st (resultState (remoteFiles env existing tn items files st))"
proof (induction files arbitrary: st)
  case Nil
  show ?case by simp
next
  case (Cons entry files)
  obtain ck chunks where entry: "entry = (ck, chunks)" by (cases entry)
  have warn: "computeStep env existing tn items st
      (resultState (remoteFiles env existing tn items files (emit (Warn (UnrequestedCacheKey ck)) st)))"
    using computeStep_emit [of env tn items "Warn (UnrequestedCacheKey ck)" existing st]
      Cons.IH [of "emit (Warn (UnrequestedCacheKey ck)) st"]
    by (auto intro: computeStep_trans)
  show ?case
  proof (cases "find (\<lambda>item. cacheKey item = ck) items")
    case None
    with entry warn show ?thesis by simp
  next
    case (Some item)
    show ?thesis
    proof (cases "path item = []")
      case True
      with Some entry warn show ?thesis by simp
    next
      case False
      let ?p = "path item"
      from Some have in_items: "\<lparr>path = ?p, cacheKey = ck\<rparr> \<in> set items"
        by (rule find_item)
      have chunks_step: "computeStep env existing tn items st
          (resultState (remoteChunks env ?p ck chunks [] st))"
        using in_items by (rule remoteChunks_step)
      show ?thesis
      proof (cases "remoteChunks env ?p ck chunks [] st")
        case (Raises e st')
        with chunks_step Some False entry show ?thesis by simp
      next
        case (Returns rows st')
        then have "itemOfRow ` set rows \<subseteq> {\<lparr>path = ?p, cacheKey = ck\<rparr>}"
          by (rule remoteChunks_rows) simp
        with in_items have "itemOfRow ` set rows \<subseteq> set items" by auto
        with in_items have "computeStep env existing tn items st'
            (addComputedLanceDbRows existing tn \<lparr>path = ?p, cacheKey = ck\<rparr> rows st')"
          by (rule computeStep_addComputed)
        moreover from chunks_step Returns have "computeStep env existing tn items st st'"
          by simp
        moreover note Cons.IH [of "addComputedLanceDbRows existing tn \<lparr>path = ?p, cacheKey = ck\<rparr> rows st'"]
        ultimately have "computeStep env existing tn items st
            (resultState (remoteFiles env existing tn items files
               (addComputedLanceDbRows existing tn \<lparr>path = ?p, cacheKey = ck\<rparr> rows st')))"
          by (blast intro: computeStep_trans)
        with Returns Some False entry show ?thesis by simp
      qed
    qed
  qed
qed

lemma remotePhase_step:
  "computeStep env existing tn items st (snd (remotePhase env existing tn repoName items st))"
proof (cases "continueServerClient env")
  case None
  then show ?thesis by (simp add: remotePhase_def)
next
  case (Some client)
  show ?thesis
  proof (cases "client_connected client")
    case False
    with Some show ?thesis by (simp add: remotePhase_def)
  next
    case True
    let ?st1 = "emit (RemoteFetch (map cacheKey items)) st"
    have s1: "computeStep env existing tn items st ?st1"
      by (rule computeStep_emit) simp_all
    have w: "computeStep env existing tn items s (emit (Warn RemoteCacheError) s)" for s
      by (rule computeStep_emit) simp_all
    show ?thesis
    proof (cases "getFromIndexCache client (map cacheKey items) ''embeddings'' repoName")
      case RemoteRaises
      with Some True s1 w [of ?st1] show ?thesis
        by (auto simp: remotePhase_def Let_def intro: computeStep_trans)
    next
      case (RemoteFiles files)
      have f: "computeStep env existing tn items ?st1
          (resultState (remoteFiles env existing tn items files ?st1))"
        by (rule remoteFiles_step)
      show ?thesis
      proof (cases "remoteFiles env existing tn items files ?st1")
        case (Raises e st')
        with f s1 w [of st'] have "computeStep env existing tn items st (emit (Warn RemoteCacheError) st')"
          by (auto intro: computeStep_trans)
        with Raises RemoteFiles Some True show ?thesis
          by (simp add: remotePhase_def Let_def)
      next
        case (Returns x st')
        with f s1 have "computeStep env existing tn items st st'"
          by (auto intro: computeStep_trans)
        with Returns RemoteFiles Some True show ?thesis
          by (simp add: remotePhase_def Let_def)
      qed
    qed
  qed
qed

lemma computeFile_genOK:
  assumes "item \<in> set items"
  shows "list_all (genOK env items) (fst (computeFile env N i item u))"
proof -
  have row: "genOK env items (createRow env N i item chunks vs u j)" for chunks vs j
    using assms by (simp add: createRow_def itemOfRow_def item_eta)
  have texts: "collectChunks (chunkerOutput env item) = (chunks, e)
      \<Longrightarrow> map content chunks \<in> fileTexts env ` set items" for chunks e
    using assms by (auto simp: fileTexts_def intro!: image_eqI [where x = item])
  show ?thesis
    using assms row texts
    by (auto simp: computeFile_def chunkerOutput_def list_all_iff
             split: prod.splits EmbedResult.splits)
qed

lemma computeChunksFrom_genOK:
  assumes "set its \<subseteq> set items"
  shows "list_all (genOK env items) (fst (computeChunksFrom env N i its u))"
  using assms
proof (induction its arbitrary: i u)
  case Nil
  show ?case by simp
next
  case (Cons item rest)
  then have fl: "list_all (genOK env items) (fst (computeFile env N i item u))"
    by (simp add: computeFile_genOK)
  show ?case
  proof (cases "computeFile env N i item u")
    case (Pair out thrown)
    show ?thesis
    proof (cases thrown)
      case (Some e)
      with Pair fl show ?thesis by simp
    next
      case None
      obtain out' r where rest:
        "computeChunksFrom env N (Suc i) rest (u + length (filter isGenRow out)) = (out', r)"
        by (cases "computeChunksFrom env N (Suc i) rest (u + length (filter isGenRow out))")
      from Cons have "list_all (genOK env items)
          (fst (computeChunksFrom env N (Suc i) rest (u + length (filter isGenRow out))))"
        by simp
      with rest Pair None fl show ?thesis by simp
    qed
  qed
qed

lemma computeStep_yield:
  "computeStep env existing tn items st (yield p d Indexing (st\<lparr>accumulatedProgress := q\<rparr>))"
  by (simp add: computeStep_def yield_def emit_def tableInv_def)

lemma computeLoop_step:
  assumes "list_all (genOK env items) out" and "itemOfRow ` set buf \<subseteq> set items"
  shows "computeStep env existing tn items st (resultState (computeLoop env existing tn out buf st))"
  using assms
proof (induction out arbitrary: buf st)
  case Nil
  show ?case by simp
next
  case (Cons g out)
  from Cons.prems have out: "list_all (genOK env items) out" and g: "genOK env items g"
    by simp_all
  show ?case
  proof (cases g)
    case (GenRow p row d dsc)
    let ?st = "st\<lparr>next_uuid := Suc (next_uuid st)\<rparr>"
    from g GenRow have row: "itemOfRow row \<in> set items" by simp
    show ?thesis
    proof (cases "cacheInsert env row (data_startLine d) (data_endLine d) (data_contents d) ?st")
      case (Raises e st')
      then have "st' = ?st" by (rule cacheInsert_Raises)
      with Raises GenRow show ?thesis
        by (simp add: computeStep_locals)
    next
      case (Returns x st')
      let ?st2 = "yield (p * (1 - progressReservedForTagging)) dsc Indexing
                    (st'\<lparr>accumulatedProgress := p * (1 - progressReservedForTagging)\<rparr>)"
      from Returns row have "computeStep env existing tn items ?st st'"
        by (rule computeStep_cacheInsert)
      then have "computeStep env existing tn items st ?st2"
        using computeStep_locals(1) [of env existing tn items st]
          computeStep_yield [of env existing tn items st']
        by (blast intro: computeStep_trans)
      moreover have "computeStep env existing tn items ?st2
          (resultState (computeLoop env existing tn out (buf @ [row]) ?st2))"
        using out Cons.prems(2) row by (intro Cons.IH) simp_all
      ultimately show ?thesis
        using Returns GenRow by (simp) (rule computeStep_trans)
    qed
  next
    case (GenMarker item)
    let ?st2 = "addComputedLanceDbRows existing tn item buf st"
    from g GenMarker have "item \<in> set items" by simp
    then have "computeStep env existing tn items st ?st2"
      using Cons.prems(2) by (rule computeStep_addComputed)
    moreover have "computeStep env existing tn items ?st2
        (resultState (computeLoop env existing tn out [] ?st2))"
      using out by (intro Cons.IH) simp_all
    ultimately show ?thesis
      using GenMarker by (simp) (rule computeStep_trans)
  next
    case (GenEmbedCall texts)
    let ?st2 = "emit (EmbedCall texts) st"
    from g GenEmbedCall have "computeStep env existing tn items st ?st2"
      by (intro computeStep_emit) simp_all
    moreover have "computeStep env existing tn items ?st2
        (resultState (computeLoop env existing tn out buf ?st2))"
      using out Cons.prems(2) by (intro Cons.IH) simp_all
    ultimately show ?thesis
      using GenEmbedCall by (simp) (rule computeStep_trans)
  next
    case (GenWarn w)
    let ?st2 = "emit (Warn w) st"
    have "computeStep env existing tn items st ?st2"
      by (intro computeStep_emit) simp_all
    moreover have "computeStep env existing tn items ?st2
        (resultState (computeLoop env existing tn out buf ?st2))"
      using out Cons.prems(2) by (intro Cons.IH) simp_all
    ultimately show ?thesis
      using GenWarn by (simp) (rule computeStep_trans)
  qed
qed

lemma computePhase_step:
  "computeStep env existing tn items st (resultState (computePhase env existing tn items st))"
proof (cases "computeChunks env items (next_uuid st)")
  case (Pair out thrown)
  have "list_all (genOK env items) (fst (computeChunks env items (next_uuid st)))"
    unfolding computeChunks_def by (rule computeChunksFrom_genOK) simp
  with Pair have "list_all (genOK env items) out" by simp
  then have "computeStep env existing tn items st
      (resultState (computeLoop env existing tn out [] st))"
    by (rule computeLoop_step) simp
  with Pair show ?thesis
    by (cases "computeLoop env existing tn out [] st"; cases thrown)
       (simp_all add: computePhase_def)
qed

subsection \<open>The remote cache\<close>



lemma list_all_computeEvent_rows:
  assumes "list_all (computeEvent env tn items) new"
  shows "itemOfRow ` set (rowsWritten new) \<subseteq> set items"
    and "itemOfRecord ` set (insertedRecords new) \<subseteq> set items"
  using assms
proof (induction new)
  case Nil
  { case 1 show ?case by simp }
  { case 2 show ?case by simp }
next
  case (Cons e new)
  { case 1 with Cons.IH show ?case by (cases e) auto }
  { case 2 with Cons.IH show ?case by (cases e) auto }
qed



subsection \<open>The phases after the compute phase\<close>

lemma completions_append [simp]:
  "completions t (xs @ ys) = completions t xs @ completions t ys"
  by (induction xs rule: completions.induct) simp_all

lemma rowsWritten_append [simp]:
  "rowsWritten (xs @ ys) = rowsWritten xs @ rowsWritten ys"
  by (induction xs rule: rowsWritten.induct) simp_all

lemma computeEvents_quiet:
  assumes "list_all (computeEvent env tn items) new"
  shows "filter isTableDelete new = [] \<and> completions RemoveTag new = []
         \<and> completions Delete new = [] \<and> completions AddTag new = []"
  using assms
proof (induction new)
  case Nil
  show ?case by simp
next
  case (Cons e new)
  then show ?case by (cases e) auto
qed

lemma addTagEvents_quiet:
  assumes "list_all addTagEvent new"
  shows "filter isTableDelete new = [] \<and> completions RemoveTag new = []
         \<and> completions Delete new = [] \<and> completions Compute new = []
         \<and> filter isEmbedCall new = [] \<and> insertedRecords new = []"
  using assms
proof (induction new)
  case Nil
  show ?case by simp
next
  case (Cons e new)
  then show ?case by (cases e) auto
qed

lemma addTagItem_effect:
  "\<exists>new. trace (addTagItem env tn k item st) = trace st @ new \<and> list_all addTagEvent new
         \<and> rowsWritten new = map (lanceRowOf item) (cachedItemsFor env item (cache st))"
  "cache (addTagItem env tn k item st) = cache st"
  "tableInv existing tn st \<Longrightarrow> tableInv existing tn (addTagItem env tn k item st)"
  by (auto simp: addTagItem_def Let_def createTable_def tableAdd_def openTable_def
        markComplete_def yield_def emit_def tableInv_def keys_update)

lemma addTagLoop_effect:
  "\<exists>new. trace (addTagLoop env tn k items st) = trace st @ new \<and> list_all addTagEvent new
         \<and> rowsWritten new =
             concat (map (\<lambda>item. map (lanceRowOf item) (cachedItemsFor env item (cache st))) items)"
  "cache (addTagLoop env tn k items st) = cache st"
  "tableInv existing tn st \<Longrightarrow> tableInv existing tn (addTagLoop env tn k items st)"
proof (induction items arbitrary: st)
  case Nil
  { case 1 show ?case by simp }
  { case 2 show ?case by simp }
  { case 3 then show ?case by simp }
next
  case (Cons item items)
  { case 1
    let ?st1 = "addTagItem env tn k item st"
    from addTagItem_effect(1) [of env tn k item st] obtain new1 where
      n1: "trace ?st1 = trace st @ new1" "list_all addTagEvent new1"
          "rowsWritten new1 = map (lanceRowOf item) (cachedItemsFor env item (cache st))"
      by auto
    from Cons.IH(1) [of ?st1] obtain new2 where
      n2: "trace (addTagLoop env tn k items ?st1) = trace ?st1 @ new2" "list_all addTagEvent new2"
          "rowsWritten new2 =
             concat (map (\<lambda>item. map (lanceRowOf item) (cachedItemsFor env item (cache ?st1))) items)"
      by auto
    have "cache ?st1 = cache st" by (rule addTagItem_effect(2))
    with n1 n2 show ?case
      by (intro exI [of _ "new1 @ new2"]) simp }
  { case 2 show ?case by (simp add: Cons.IH(2) addTagItem_effect(2)) }
  { case 3 then show ?case by (simp add: Cons.IH(3) addTagItem_effect(3)) }
qed

lemma delEvents_quiet:
  assumes "list_all delEvent new"
  shows "filter isTableDelete new = [] \<and> completions t new = []"
  using assms
proof (induction new)
  case Nil
  show ?case by simp
next
  case (Cons e new)
  then show ?case by (cases e) auto
qed

lemma delLoop_effect:
  "\<exists>new. trace (delLoop env k items st) = trace st @ new \<and> list_all delEvent new"
  "cache (delLoop env k items st)
     = filter (\<lambda>r. \<forall>item\<in>set items. \<not> matchesItem env item r) (cache st)"
  "tables (delLoop env k items st) = tables st"
proof (induction items arbitrary: st)
  case Nil
  { case 1 show ?case by simp }
  { case 2 show ?case by simp }
  { case 3 show ?case by simp }
next
  case (Cons item items)
  { case 1
    let ?st1 = "yield (accumulatedProgress (cacheDelete env (cacheKey item) (path item) st)
                        + 1 / of_nat k / 3)
                  (''Removing '' @ getBasename env (path item)) Indexing
                  ((cacheDelete env (cacheKey item) (path item) st)
                     \<lparr>accumulatedProgress :=
                        accumulatedProgress (cacheDelete env (cacheKey item) (path item) st)
                          + 1 / of_nat k / 3\<rparr>)"
    from Cons.IH(1) [of ?st1] obtain new2 where
      n2: "trace (delLoop env k items ?st1) = trace ?st1 @ new2" "list_all delEvent new2"
      by auto
    obtain new1 where n1: "trace ?st1 = trace st @ new1" "list_all delEvent new1"
      by (simp add: yield_def cacheDelete_def emit_def)
    from n1 n2 show ?case
      by (intro exI [of _ "new1 @ new2"]) (simp add: Let_def) }
  { case 2
    show ?case
      by (auto simp: Cons.IH(2) Let_def yield_def cacheDelete_def emit_def matchesItem_def
               intro: filter_cong) }
  { case 3
    show ?case
      by (simp add: Cons.IH(3) Let_def yield_def cacheDelete_def emit_def) }
qed

lemma toDelLoop_keys:
  "fst ` set (tables st) \<subseteq> fst ` set (tables (toDelLoop env tn k items st))"
proof (induction items arbitrary: st)
  case Nil
  show ?case by simp
next
  case (Cons item items)
  let ?st1 = "tableDelete tn (cacheKey item) (path item) st"
  have "fst ` set (tables st) \<subseteq> fst ` set (tables ?st1)"
    by (auto simp: tableDelete_def emit_def keys_update)
  also have "\<dots> \<subseteq> fst ` set (tables (toDelLoop env tn k (item # items) st))"
    using Cons.IH [of "yield (accumulatedProgress ?st1 + 1 / of_nat k / 3)
                         (''Stashing '' @ getBasename env (path item)) Indexing
                         (?st1\<lparr>accumulatedProgress := accumulatedProgress ?st1 + 1 / of_nat k / 3\<rparr>)"]
    by (simp add: Let_def yield_def emit_def)
  finally show ?case .
qed

lemma removePhase_keys:
  "fst ` set (tables st) \<subseteq> fst ` set (tables (removePhase env tn results st))"
  using toDelLoop_keys [of st env tn "length (removeTag results @ del results)"
      "removeTag results @ del results"]
  by (simp add: removePhase_def Let_def yield_def markComplete_def emit_def delLoop_effect(3))

lemma removePhase_without_table:
  assumes "needToCreateTable st"
  shows "\<exists>new. trace (removePhase env tn results st)
            = trace st @ MarkComplete (removeTag results) RemoveTag # new
                @ [MarkComplete (del results) Delete,
                   Yield \<lparr>progress = 1, desc = ''Completed Calculating Embeddings'',
                          status = Done\<rparr>]
          \<and> list_all delEvent new"
    and "cache (removePhase env tn results st)
           = filter (\<lambda>r. \<forall>item\<in>set (del results). \<not> matchesItem env item r) (cache st)"
proof -
  let ?st2 = "markComplete (removeTag results) RemoveTag st"
  let ?st3 = "delLoop env (length (del results)) (del results) ?st2"
  from assms have r: "removePhase env tn results st
      = yield 1 ''Completed Calculating Embeddings'' Done (markComplete (del results) Delete ?st3)"
    by (simp add: removePhase_def Let_def)
  from delLoop_effect(1) [of env "length (del results)" "del results" ?st2] obtain new where
    "trace ?st3 = trace ?st2 @ new" "list_all delEvent new"
    by auto
  then show "\<exists>new. trace (removePhase env tn results st)
            = trace st @ MarkComplete (removeTag results) RemoveTag # new
                @ [MarkComplete (del results) Delete,
                   Yield \<lparr>progress = 1, desc = ''Completed Calculating Embeddings'',
                          status = Done\<rparr>]
          \<and> list_all delEvent new"
    by (auto simp: r yield_def markComplete_def emit_def)
  show "cache (removePhase env tn results st)
           = filter (\<lambda>r. \<forall>item\<in>set (del results). \<not> matchesItem env item r) (cache st)"
    by (simp add: r yield_def markComplete_def emit_def delLoop_effect(2))
qed

lemma remotePhase_items:
  "set (fst (remotePhase env existing tn repoName items st)) \<subseteq> set items"
  by (auto simp: remotePhase_def Let_def
           split: option.splits RemoteResponse.splits Result.splits)

text \<open>The state and the events of a call of update up to the end of its compute phase.\<close>

lemma update_compute_stage:
  assumes "update env tag results repoName st0 = Returns x st'"
  shows "\<exists>st2. st' = removePhase env (tableNameForTag env tag) results
                  (addTagLoop env (tableNameForTag env tag) (length (addTag results))
                     (addTag results) st2)
           \<and> computeStep env (tableExists env tag st0) (tableNameForTag env tag)
                (compute results) (updateStart env tag st0) st2"
proof -
  let ?tn = "tableNameForTag env tag" and ?ex = "tableExists env tag st0"
  let ?st = "updateStart env tag st0"
  obtain items st1 where r: "remotePhase env ?ex ?tn repoName (compute results) ?st = (items, st1)"
    by (cases "remotePhase env ?ex ?tn repoName (compute results) ?st")
  with assms obtain st2 where c: "computePhase env ?ex ?tn items st1 = Returns () st2"
    and s: "st' = removePhase env ?tn results
                   (addTagLoop env ?tn (length (addTag results)) (addTag results) st2)"
    by (auto simp: update_def Let_def split: Result.splits)
  have "computeStep env ?ex ?tn (compute results) ?st st1"
    using remotePhase_step [of env ?ex ?tn "compute results" ?st repoName] r by simp
  moreover have "set items \<subseteq> set (compute results)"
    using remotePhase_items [of env ?ex ?tn repoName "compute results" ?st] r by simp
  then have "computeStep env ?ex ?tn (compute results) st1 st2"
    using computePhase_step [of env ?ex ?tn items st1] c
    by (auto intro: computeStep_mono)
  ultimately have "computeStep env ?ex ?tn (compute results) ?st st2"
    by (rule computeStep_trans)
  with s show ?thesis by blast
qed

lemma tableInv_start:
  "tableInv (tableExists env tag st0) (tableNameForTag env tag) (updateStart env tag st0)"
  by (simp add: tableInv_def updateStart_def tableExists_def)

text \<open>
  C10, as amended: in every call of \<^verbatim>\<open>update\<close> that returns, in which no table exists for
  the sanitized tag before the call and none exists after it, no predicate deletion is issued
  against a vector table, \<^verbatim>\<open>markComplete\<close> is invoked exactly once with
  \<^verbatim>\<open>results.removeTag\<close> and \<^verbatim>\<open>RemoveTag\<close> and exactly once with \<^verbatim>\<open>results.del\<close>
  and \<^verbatim>\<open>Delete\<close>, no cache record of an item of \<^verbatim>\<open>results.del\<close> is left, and the last
  event is the terminal one, with progress 1 and status done.
\<close>

theorem update_without_table:
  assumes "\<not> tableExists env tag st0"
    and "update env tag results repoName st0 = Returns x st'"
    and "\<not> tableExists env tag st'"
  shows "filter isTableDelete (trace st') = []
       \<and> completions RemoveTag (trace st') = [removeTag results]
       \<and> completions Delete (trace st') = [del results]
       \<and> (\<forall>item\<in>set (del results). cachedItemsFor env item (cache st') = [])
       \<and> last (trace st') = Yield \<lparr>progress = 1, desc = ''Completed Calculating Embeddings'',
                                    status = Done\<rparr>"
proof -
  let ?tn = "tableNameForTag env tag" and ?ex = "tableExists env tag st0"
  from update_compute_stage [OF assms(2)] obtain st2 where
    s: "st' = removePhase env ?tn results
               (addTagLoop env ?tn (length (addTag results)) (addTag results) st2)"
    and c: "computeStep env ?ex ?tn (compute results) (updateStart env tag st0) st2"
    by blast
  let ?st3 = "addTagLoop env ?tn (length (addTag results)) (addTag results) st2"
  from c obtain new1 where n1: "trace st2 = new1" "list_all (computeEvent env ?tn (compute results)) new1"
    and i2: "tableInv ?ex ?tn st2"
    using tableInv_start [of env tag st0]
    by (auto simp: computeStep_def updateStart_def)
  from addTagLoop_effect(1) [of env ?tn "length (addTag results)" "addTag results" st2]
  obtain new2 where n2: "trace ?st3 = trace st2 @ new2" "list_all addTagEvent new2"
    by auto
  have i3: "tableInv ?ex ?tn ?st3"
    using i2 by (rule addTagLoop_effect(3))
  have "?tn \<notin> fst ` set (tables ?st3)"
    using assms(3) removePhase_keys [of ?st3 env ?tn results] s
    by (auto simp: tableExists_def)
  with i3 have need: "needToCreateTable ?st3"
    by (simp add: tableInv_def)
  from removePhase_without_table(1) [OF need, of env ?tn results] obtain new3 where
    n3: "trace st' = trace ?st3 @ MarkComplete (removeTag results) RemoveTag # new3
                @ [MarkComplete (del results) Delete,
                   Yield \<lparr>progress = 1, desc = ''Completed Calculating Embeddings'',
                          status = Done\<rparr>]"
      "list_all delEvent new3"
    using s by auto
  have tr: "trace st' = new1 @ new2 @ MarkComplete (removeTag results) RemoveTag # new3
                @ [MarkComplete (del results) Delete,
                   Yield \<lparr>progress = 1, desc = ''Completed Calculating Embeddings'',
                          status = Done\<rparr>]"
    using n1(1) n2(1) n3(1) by simp
  have ch: "cache st' = filter (\<lambda>r. \<forall>item\<in>set (del results). \<not> matchesItem env item r) (cache ?st3)"
    using removePhase_without_table(2) [OF need, of env ?tn results] s by simp
  have q1: "filter isTableDelete new1 = []" "completions RemoveTag new1 = []"
    "completions Delete new1 = []"
    using computeEvents_quiet [OF n1(2)] by simp_all
  have q2: "filter isTableDelete new2 = []" "completions RemoveTag new2 = []"
    "completions Delete new2 = []"
    using addTagEvents_quiet [OF n2(2)] by simp_all
  have q3: "filter isTableDelete new3 = []" "completions RemoveTag new3 = []"
    "completions Delete new3 = []"
    using delEvents_quiet [OF n3(2)] by simp_all
  have "filter isTableDelete (trace st') = []"
    by (simp add: tr q1 q2 q3)
  moreover have "completions RemoveTag (trace st') = [removeTag results]"
    by (simp add: tr q1 q2 q3)
  moreover have "completions Delete (trace st') = [del results]"
    by (simp add: tr q1 q2 q3)
  moreover have "\<forall>item\<in>set (del results). cachedItemsFor env item (cache st') = []"
    by (auto simp: ch cachedItemsFor_def matchesItem_def filter_empty_conv)
  moreover have "last (trace st') = Yield \<lparr>progress = 1, desc = ''Completed Calculating Embeddings'',
                                    status = Done\<rparr>"
    by (simp add: tr)
  ultimately show ?thesis by blast
qed

text \<open>
  C10. The claim: in every call in which no table exists for the tag and none is created, no
  predicate deletion is issued, yet \<^verbatim>\<open>markComplete\<close> is invoked once for
  \<^verbatim>\<open>results.removeTag\<close> and once for \<^verbatim>\<open>results.del\<close>, the cache records of the
  deleted items are removed and the terminal event is emitted. A call whose compute phase
  throws creates no table either, and ends before any of this: here the provider returns
  undefined elements for \<^verbatim>\<open>a.ts\<close>, and the call raises with the one event of the call of
  the provider in its trace and the record of \<^verbatim>\<open>old.ts\<close> still in the cache.
\<close>

theorem update_raises_before_cleanup:
  "\<not> tableExists ex_index_undefined ex_tag ex_cache_only_store
   \<and> (case update ex_index_undefined ex_tag (ex_tidy_results ex_a) None ex_cache_only_store of
        Returns x s \<Rightarrow> False
      | Raises e s \<Rightarrow> e = EmbeddingUndefined \<and> tables s = [] \<and> cache s = [ex_old_record]
                       \<and> trace s = [EmbedCall [''x'', ''y'']])"
  by code_simp

theorem update_without_table_witness:
  "completions RemoveTag
     (trace (resultState (update ex_index ex_tag (ex_tidy_results ex_huge) None ex_cache_only_store)))
     = [[ex_big]]
   \<and> completions Delete
     (trace (resultState (update ex_index ex_tag (ex_tidy_results ex_huge) None ex_cache_only_store)))
     = [[ex_old]]
   \<and> cachedItemsFor ex_index ex_old
       (cache (resultState (update ex_index ex_tag (ex_tidy_results ex_huge) None
                 ex_cache_only_store))) = []"
proof -
  let ?u = "update ex_index ex_tag (ex_tidy_results ex_huge) None ex_cache_only_store"
  have a: "\<not> tableExists ex_index ex_tag ex_cache_only_store"
    by code_simp
  have "case ?u of Returns x s \<Rightarrow> True | Raises e s \<Rightarrow> False"
    by code_simp
  then have b: "?u = Returns () (resultState ?u)"
    by (cases ?u) simp_all
  have c: "\<not> tableExists ex_index ex_tag (resultState ?u)"
    by code_simp
  have d: "removeTag (ex_tidy_results ex_huge) = [ex_big]" "del (ex_tidy_results ex_huge) = [ex_old]"
    by (simp_all add: ex_tidy_results_def)
  from update_without_table [OF a b c] show ?thesis
    by (simp add: d)
qed

subsection \<open>Adding a tag from the cache\<close>

lemma rowsWrittenTo_append [simp]:
  "rowsWrittenTo tn (xs @ ys) = rowsWrittenTo tn xs @ rowsWrittenTo tn ys"
  by (induction xs rule: rowsWrittenTo.induct) simp_all

lemma embedCalls_append [simp]:
  "embedCalls (xs @ ys) = embedCalls xs @ embedCalls ys"
  by (induction xs rule: embedCalls.induct) simp_all

lemma computeEvents_written:
  assumes "list_all (computeEvent env tn items) new"
  shows "itemOfRow ` set (rowsWrittenTo tn new) \<subseteq> set items
         \<and> set (embedCalls new) \<subseteq> fileTexts env ` set items"
  using assms
proof (induction new)
  case Nil
  show ?case by simp
next
  case (Cons e new)
  then show ?case by (cases e) auto
qed

lemma addTagEvents_calls:
  assumes "list_all addTagEvent new"
  shows "embedCalls new = []"
  using assms
proof (induction new)
  case Nil
  show ?case by simp
next
  case (Cons e new)
  then show ?case by (cases e) auto
qed

lemma removeEvents_quiet:
  assumes "list_all removeEvent new"
  shows "embedCalls new = [] \<and> rowsWrittenTo tn new = []"
  using assms
proof (induction new)
  case Nil
  show ?case by simp
next
  case (Cons e new)
  then show ?case by (cases e) auto
qed

lemma addTagItem_written:
  "\<exists>new. trace (addTagItem env tn k item st) = trace st @ new \<and> list_all addTagEvent new
         \<and> rowsWrittenTo tn new = map (lanceRowOf item) (cachedItemsFor env item (cache st))"
  by (auto simp: addTagItem_def Let_def createTable_def tableAdd_def openTable_def
        markComplete_def yield_def emit_def)

lemma addTagLoop_written:
  "\<exists>new. trace (addTagLoop env tn k items st) = trace st @ new \<and> list_all addTagEvent new
         \<and> rowsWrittenTo tn new =
             concat (map (\<lambda>item. map (lanceRowOf item) (cachedItemsFor env item (cache st))) items)"
proof (induction items arbitrary: st)
  case Nil
  show ?case by simp
next
  case (Cons item items)
  let ?st1 = "addTagItem env tn k item st"
  from addTagItem_written [of env tn k item st] obtain new1 where
    n1: "trace ?st1 = trace st @ new1" "list_all addTagEvent new1"
        "rowsWrittenTo tn new1 = map (lanceRowOf item) (cachedItemsFor env item (cache st))"
    by auto
  from Cons.IH [of ?st1] obtain new2 where
    n2: "trace (addTagLoop env tn k items ?st1) = trace ?st1 @ new2" "list_all addTagEvent new2"
        "rowsWrittenTo tn new2 =
           concat (map (\<lambda>item. map (lanceRowOf item) (cachedItemsFor env item (cache ?st1))) items)"
    by auto
  have "cache ?st1 = cache st" by (rule addTagItem_effect(2))
  with n1 n2 show ?case
    by (intro exI [of _ "new1 @ new2"]) simp
qed

lemma toDelLoop_events:
  "\<exists>new. trace (toDelLoop env tn k items st) = trace st @ new \<and> list_all removeEvent new"
proof (induction items arbitrary: st)
  case Nil
  show ?case by simp
next
  case (Cons item items)
  let ?st1 = "tableDelete tn (cacheKey item) (path item) st"
  let ?st2 = "yield (accumulatedProgress ?st1 + 1 / of_nat k / 3)
                (''Stashing '' @ getBasename env (path item)) Indexing
                (?st1\<lparr>accumulatedProgress := accumulatedProgress ?st1 + 1 / of_nat k / 3\<rparr>)"
  obtain new1 where n1: "trace ?st2 = trace st @ new1" "list_all removeEvent new1"
    by (cases "table st") (simp_all add: yield_def tableDelete_def emit_def)
  from Cons.IH [of ?st2] obtain new2 where
    n2: "trace (toDelLoop env tn k items ?st2) = trace ?st2 @ new2" "list_all removeEvent new2"
    by auto
  from n1 n2 show ?case
    by (intro exI [of _ "new1 @ new2"]) (simp add: Let_def)
qed

lemma delEvent_removeEvent: "list_all delEvent new \<Longrightarrow> list_all removeEvent new"
proof (induction new)
  case Nil
  show ?case by simp
next
  case (Cons e new)
  then show ?case by (cases e) auto
qed

lemma removePhase_events:
  "\<exists>new. trace (removePhase env tn results st) = trace st @ new \<and> list_all removeEvent new"
proof -
  let ?toDel = "removeTag results @ del results"
  let ?st1 = "if \<not> needToCreateTable st then toDelLoop env tn (length ?toDel) ?toDel st else st"
  let ?st2 = "markComplete (removeTag results) RemoveTag ?st1"
  let ?st3 = "delLoop env (length (del results)) (del results) ?st2"
  obtain new1 where n1: "trace ?st1 = trace st @ new1" "list_all removeEvent new1"
    using toDelLoop_events [of env tn "length ?toDel" ?toDel st] by (cases "needToCreateTable st") auto
  obtain new3 where n3: "trace ?st3 = trace ?st2 @ new3" "list_all removeEvent new3"
    using delLoop_effect(1) [of env "length (del results)" "del results" ?st2]
      delEvent_removeEvent by blast
  have "removePhase env tn results st
      = yield 1 ''Completed Calculating Embeddings'' Done (markComplete (del results) Delete ?st3)"
    by (simp add: removePhase_def Let_def)
  with n1 n3 show ?thesis
    by (intro exI [of _ "new1 @ MarkComplete (removeTag results) RemoveTag # new3
          @ [MarkComplete (del results) Delete,
             Yield \<lparr>progress = 1, desc = ''Completed Calculating Embeddings'', status = Done\<rparr>]"])
       (simp add: yield_def markComplete_def emit_def)
qed

lemma itemOfRow_lanceRowOf [simp]: "itemOfRow (lanceRowOf item r) = item"
  by (simp add: itemOfRow_def lanceRowOf_def item_eta)

lemma filter_concat_one:
  assumes "distinct xs" and "x \<in> set xs" and "\<And>y r. r \<in> set (f y) \<Longrightarrow> g r = y"
  shows "filter (\<lambda>r. g r = x) (concat (map f xs)) = f x"
  using assms(1,2)
proof (induction xs)
  case Nil
  then show ?case by simp
next
  case (Cons y ys)
  have none: "x \<notin> set zs \<Longrightarrow> filter (\<lambda>r. g r = x) (concat (map f zs)) = []" for zs
    using assms(3) by (induction zs) (auto simp: filter_empty_conv)
  have all: "filter (\<lambda>r. g r = x) (f x) = f x"
    using assms(3) by (simp add: filter_id_conv)
  show ?case
  proof (cases "y = x")
    case True
    with Cons.prems have "x \<notin> set ys" by simp
    with True none all show ?thesis by simp
  next
    case False
    with Cons.prems have "x \<in> set ys" "distinct ys" by simp_all
    with Cons.IH have "filter (\<lambda>r. g r = x) (concat (map f ys)) = f x" by simp
    moreover from False have "filter (\<lambda>r. g r = x) (f y) = []"
      using assms(3) by (auto simp: filter_empty_conv)
    ultimately show ?thesis by simp
  qed
qed

lemma cachedItemsFor_append [simp]:
  "cachedItemsFor env item (xs @ ys) = cachedItemsFor env item xs @ cachedItemsFor env item ys"
  by (simp add: cachedItemsFor_def)

lemma cachedItemsFor_other:
  assumes "itemOfRecord ` set rs \<subseteq> set items" and "item \<notin> set items"
  shows "cachedItemsFor env item rs = []"
proof -
  have eq: "itemOfRecord r = item" if "cr_cacheKey r = cacheKey item" "cr_path r = path item" for r
    using that item_eta [of item] by (simp add: itemOfRecord_def)
  have "\<not> (cr_cacheKey r = cacheKey item \<and> cr_path r = path item)" if "r \<in> set rs" for r
  proof
    assume "cr_cacheKey r = cacheKey item \<and> cr_path r = path item"
    then have "itemOfRecord r = item" using eq by blast
    with that assms show False by auto
  qed
  then show ?thesis
    by (auto simp: cachedItemsFor_def filter_empty_conv)
qed

text \<open>
  C7, as amended: let a call of \<^verbatim>\<open>update\<close> return, let its \<^verbatim>\<open>addTag\<close> list be without
  duplicates and hold the file version \<open>item\<close>, and let its \<^verbatim>\<open>compute\<close> list not hold it.
  Then the rows for \<open>item\<close> that the call inserts into the table of its tag are, in order, one
  row for each cache record of \<open>item\<close> under the artifact that the cache held before the
  call, with the uuid and the vector of the record: as many rows as there are records. Every
  call of the embedding provider during the call is for a file of the \<^verbatim>\<open>compute\<close> list,
  hence none for \<open>item\<close>. The text form of a vector in the cache is taken to be read back as
  the vector that was written.
\<close>

theorem add_tag_reuses_cache:
  assumes "update env tag results repoName st0 = Returns x st'"
    and "distinct (addTag results)" and "item \<in> set (addTag results)"
    and "item \<notin> set (compute results)"
  shows "filter (\<lambda>r. itemOfRow r = item) (rowsWrittenTo (tableNameForTag env tag) (trace st'))
           = map (lanceRowOf item) (cachedItemsFor env item (cache st0))
       \<and> set (embedCalls (trace st')) \<subseteq> fileTexts env ` set (compute results)"
proof -
  let ?tn = "tableNameForTag env tag" and ?ex = "tableExists env tag st0"
  from update_compute_stage [OF assms(1)] obtain st2 where
    s: "st' = removePhase env ?tn results
               (addTagLoop env ?tn (length (addTag results)) (addTag results) st2)"
    and c: "computeStep env ?ex ?tn (compute results) (updateStart env tag st0) st2"
    by blast
  let ?st3 = "addTagLoop env ?tn (length (addTag results)) (addTag results) st2"
  from c obtain new1 where n1: "trace st2 = new1"
      "list_all (computeEvent env ?tn (compute results)) new1"
      "cache st2 = cache st0 @ insertedRecords new1"
    by (auto simp: computeStep_def updateStart_def)
  from addTagLoop_written [of env ?tn "length (addTag results)" "addTag results" st2]
  obtain new2 where n2: "trace ?st3 = trace st2 @ new2" "list_all addTagEvent new2"
      "rowsWrittenTo ?tn new2 =
         concat (map (\<lambda>item. map (lanceRowOf item) (cachedItemsFor env item (cache st2)))
                   (addTag results))"
    by auto
  from removePhase_events [of env ?tn results ?st3] obtain new3 where
    n3: "trace st' = trace ?st3 @ new3" "list_all removeEvent new3"
    using s by auto
  have tr: "trace st' = new1 @ new2 @ new3"
    using n1(1) n2(1) n3(1) by simp
  have w1: "itemOfRow ` set (rowsWrittenTo ?tn new1) \<subseteq> set (compute results)"
    and e1: "set (embedCalls new1) \<subseteq> fileTexts env ` set (compute results)"
    using computeEvents_written [OF n1(2)] by simp_all
  have f1: "filter (\<lambda>r. itemOfRow r = item) (rowsWrittenTo ?tn new1) = []"
    using w1 assms(4) by (auto simp: filter_empty_conv)
  have "itemOfRecord ` set (insertedRecords new1) \<subseteq> set (compute results)"
    using list_all_computeEvent_rows(2) [OF n1(2)] .
  then have "cachedItemsFor env item (insertedRecords new1) = []"
    using assms(4) by (rule cachedItemsFor_other)
  then have ch: "cachedItemsFor env item (cache st2) = cachedItemsFor env item (cache st0)"
    by (simp add: n1(3))
  have f2: "filter (\<lambda>r. itemOfRow r = item) (rowsWrittenTo ?tn new2)
      = map (lanceRowOf item) (cachedItemsFor env item (cache st2))"
    unfolding n2(3)
    by (rule filter_concat_one [OF assms(2,3)]) auto
  have q3: "embedCalls new3 = []" "rowsWrittenTo ?tn new3 = []"
    using removeEvents_quiet [OF n3(2)] by simp_all
  have "filter (\<lambda>r. itemOfRow r = item) (rowsWrittenTo ?tn (trace st'))
           = map (lanceRowOf item) (cachedItemsFor env item (cache st0))"
    by (simp add: tr f1 f2 q3 ch)
  moreover have "set (embedCalls (trace st')) \<subseteq> fileTexts env ` set (compute results)"
    using e1 by (simp add: tr q3 addTagEvents_calls [OF n2(2)])
  ultimately show ?thesis by blast
qed

text \<open>
  C7. The claim: once a file version has been computed, with \<open>k\<close> records in the cache, a
  later call of \<^verbatim>\<open>update\<close> whose \<^verbatim>\<open>addTag\<close> list holds it inserts exactly \<open>k\<close> rows
  into the table of the new tag. The loop over \<^verbatim>\<open>results.addTag\<close> comes after the compute
  phase: when that phase throws, nothing is inserted. Here \<^verbatim>\<open>a.ts\<close> has been computed under
  the tag \<open>ex_tag\<close> and has two records in the cache; the call for the tag \<open>ex_tag2\<close> is
  to compute \<^verbatim>\<open>big.ts\<close>, for which the provider returns undefined elements, and to add the
  tag to \<^verbatim>\<open>a.ts\<close>: it raises and has written no row.
\<close>

theorem add_tag_after_failed_compute:
  "length (cachedItemsFor ex_index_flaky ex_a (cache ex_after_compute)) = 2
   \<and> (case update ex_index_flaky ex_tag2 (ex_addTag_results ex_big) None ex_after_compute of
        Returns x s \<Rightarrow> False
      | Raises e s \<Rightarrow>
          rowsWrittenTo (tableNameForTag ex_index_flaky ex_tag2) (trace s) = []
          \<and> rowsOf (tables s) (tableNameForTag ex_index_flaky ex_tag2) = [])"
  by code_simp

theorem add_tag_reuses_cache_witness:
  "length (cachedItemsFor ex_index_flaky ex_a (cache ex_after_compute)) = 2
   \<and> filter (\<lambda>r. itemOfRow r = ex_a)
       (rowsWrittenTo (tableNameForTag ex_index_flaky ex_tag2)
          (trace (resultState (update ex_index_flaky ex_tag2 (ex_addTag_results ex_huge) None
                                 ex_after_compute))))
       = map (lanceRowOf ex_a) (cachedItemsFor ex_index_flaky ex_a (cache ex_after_compute))
   \<and> rowsOf (tables (resultState (update ex_index_flaky ex_tag2 (ex_addTag_results ex_huge) None
                                    ex_after_compute)))
        (tableNameForTag ex_index_flaky ex_tag2)
       = rowsOf (tables ex_after_compute) (tableNameForTag ex_index_flaky ex_tag)"
proof -
  let ?u = "update ex_index_flaky ex_tag2 (ex_addTag_results ex_huge) None ex_after_compute"
  have "case ?u of Returns x s \<Rightarrow> True | Raises e s \<Rightarrow> False"
    by code_simp
  then have a: "?u = Returns () (resultState ?u)"
    by (cases ?u) simp_all
  have b: "distinct (addTag (ex_addTag_results ex_huge))"
    "ex_a \<in> set (addTag (ex_addTag_results ex_huge))"
    "ex_a \<notin> set (compute (ex_addTag_results ex_huge))"
    by (simp_all add: ex_addTag_results_def ex_a_def ex_huge_def)
  have c: "length (cachedItemsFor ex_index_flaky ex_a (cache ex_after_compute)) = 2"
    by code_simp
  have d: "rowsOf (tables (resultState ?u)) (tableNameForTag ex_index_flaky ex_tag2)
       = rowsOf (tables ex_after_compute) (tableNameForTag ex_index_flaky ex_tag)"
    by code_simp
  from add_tag_reuses_cache [OF a b] c d show ?thesis
    by simp
qed

subsection \<open>The primary key of the cache\<close>

lemma toDelLoop_cache: "cache (toDelLoop env tn k items st) = cache st"
proof (induction items arbitrary: st)
  case Nil
  show ?case by simp
next
  case (Cons item items)
  show ?case
    by (simp add: Cons.IH Let_def yield_def tableDelete_def emit_def)
qed

lemma removePhase_cache:
  "cache (removePhase env tn results st)
     = filter (\<lambda>r. \<forall>item\<in>set (del results). \<not> matchesItem env item r) (cache st)"
  by (simp add: removePhase_def Let_def yield_def markComplete_def emit_def delLoop_effect(2)
        toDelLoop_cache)

lemma computeStep_distinct:
  "computeStep env existing tn items st st' \<Longrightarrow> distinct (map cr_uuid (cache st))
     \<Longrightarrow> distinct (map cr_uuid (cache st'))"
  by (simp add: computeStep_def)

text \<open>
  The column \<^verbatim>\<open>uuid\<close> stays a key of the cache: an insert of a uuid that the table holds
  fails, so the uuids of the records are distinct after a call of \<^verbatim>\<open>update\<close> if they were
  before it, whether the call returns or raises.
\<close>

lemma update_keeps_primary_key:
  assumes "distinct (map cr_uuid (cache st0))"
  shows "distinct (map cr_uuid (cache (resultState (update env tag results repoName st0))))"
proof -
  let ?tn = "tableNameForTag env tag" and ?ex = "tableExists env tag st0"
  let ?st = "updateStart env tag st0"
  obtain items st1 where r: "remotePhase env ?ex ?tn repoName (compute results) ?st = (items, st1)"
    by (cases "remotePhase env ?ex ?tn repoName (compute results) ?st")
  let ?st2 = "resultState (computePhase env ?ex ?tn items st1)"
  have "computeStep env ?ex ?tn (compute results) ?st st1"
    using remotePhase_step [of env ?ex ?tn "compute results" ?st repoName] r by simp
  moreover have "distinct (map cr_uuid (cache ?st))"
    using assms by (simp add: updateStart_def)
  ultimately have "distinct (map cr_uuid (cache st1))"
    by (rule computeStep_distinct)
  moreover have "computeStep env ?ex ?tn items st1 ?st2"
    by (rule computePhase_step)
  ultimately have d2: "distinct (map cr_uuid (cache ?st2))"
    using computeStep_distinct by blast
  then have "distinct (map cr_uuid (cache (removePhase env ?tn results
      (addTagLoop env ?tn (length (addTag results)) (addTag results) ?st2))))"
    by (simp add: removePhase_cache addTagLoop_effect(2) distinct_map_filter)
  with d2 r show ?thesis
    by (cases "computePhase env ?ex ?tn items st1") (simp_all add: update_def Let_def)
qed

subsection \<open>The files of the compute phase\<close>

lemma isRecordOf_item: "isRecordOf env g uu v c r \<Longrightarrow> itemOfRecord r = g"
  by (simp add: isRecordOf_def matchesItem_def itemOfRecord_def)

lemma isRecordOf_items:
  "list_all2 (\<lambda>j r. isRecordOf env g (uu j) (v j) (c j) r) js recs
     \<Longrightarrow> \<forall>r\<in>set recs. itemOfRecord r = g"
  by (induction js recs rule: list_all2_induct) (auto dest: isRecordOf_item)

lemma computeLoop_rows_any:
  "\<exists>st' new. trace st' = trace st @ new
     \<and> (\<forall>f. filter (concerns f) new = (if f = g then map CacheInsert (insertedRecords new) else []))
     \<and> (computeLoop env ex tn (map (createRow env N i g cs vs u) js @ rest) buf st
          = Raises CacheWriteFailed st'
        \<or> (computeLoop env ex tn (map (createRow env N i g cs vs u) js @ rest) buf st
             = computeLoop env ex tn rest (buf @ map rowOfRecord (insertedRecords new)) st'
           \<and> list_all2 (\<lambda>j r. isRecordOf env g (uuidv4 env (u + j)) (nthOrUndefined vs j) (cs ! j) r)
                js (insertedRecords new)))"
proof (induction js arbitrary: buf st)
  case Nil
  show ?case
    by (intro exI [of _ st] exI [of _ "[]"]) simp
next
  case (Cons j js)
  let ?row = "\<lparr>row_uuid = uuidv4 env (u + j), row_path = path g, row_cachekey = cacheKey g,
               row_vector = nthOrUndefined vs j\<rparr>"
  let ?p = "(of_nat i + of_nat j / of_nat (length cs)) / of_nat N * (1 - progressReservedForTagging)"
  let ?d = "''Indexing '' @ getBasename env (filepath (cs ! j))"
  let ?y = "Yield \<lparr>progress = ?p, desc = ?d, status = Indexing\<rparr>"
  let ?st = "st\<lparr>next_uuid := Suc (next_uuid st)\<rparr>"
  let ?loop = "computeLoop env ex tn (map (createRow env N i g cs vs u) (j # js) @ rest) buf st"
  show ?case
  proof (cases "cacheInsert env ?row (startLine (cs ! j)) (endLine (cs ! j)) (content (cs ! j)) ?st")
    case (Raises e st')
    then have "st' = ?st" by (rule cacheInsert_Raises)
    moreover from Raises have "e = CacheWriteFailed"
      by (auto simp: cacheInsert_def Let_def split: option.splits if_splits)
    ultimately have "?loop = Raises CacheWriteFailed ?st"
      using Raises by (simp add: createRow_def)
    then show ?thesis
      by (intro exI [of _ ?st] exI [of _ "[]"]) simp
  next
    case (Returns x st1)
    from cacheInsert_Returns [OF Returns] obtain r where
      r: "rowOfRecord r = ?row" "cr_artifact_id r = artifactId env"
         "cr_startLine r = startLine (cs ! j)" "cr_endLine r = endLine (cs ! j)"
         "cr_contents r = content (cs ! j)"
         "st1 = emit (CacheInsert r) (?st\<lparr>cache := cache ?st @ [r]\<rparr>)"
      by blast
    from r(1) have rec: "isRecordOf env g (uuidv4 env (u + j)) (nthOrUndefined vs j) (cs ! j) r"
      using r(2,3,4,5) by (auto simp: isRecordOf_def matchesItem_def rowOfRecord_def)
    define st2 where "st2 = yield ?p ?d Indexing (st1\<lparr>accumulatedProgress := ?p\<rparr>)"
    have t2: "trace st2 = trace st @ [CacheInsert r, ?y]"
      by (simp add: st2_def r(6) yield_def emit_def)
    have step: "?loop = computeLoop env ex tn (map (createRow env N i g cs vs u) js @ rest)
                          (buf @ [?row]) st2"
      using Returns by (simp add: createRow_def st2_def)
    from Cons.IH [where buf = "buf @ [?row]" and st = st2] obtain st' new where
      ih: "trace st' = trace st2 @ new"
          "\<forall>f. filter (concerns f) new = (if f = g then map CacheInsert (insertedRecords new) else [])"
          "computeLoop env ex tn (map (createRow env N i g cs vs u) js @ rest) (buf @ [?row]) st2
             = Raises CacheWriteFailed st'
           \<or> (computeLoop env ex tn (map (createRow env N i g cs vs u) js @ rest) (buf @ [?row]) st2
                = computeLoop env ex tn rest ((buf @ [?row]) @ map rowOfRecord (insertedRecords new)) st'
              \<and> list_all2 (\<lambda>j r. isRecordOf env g (uuidv4 env (u + j)) (nthOrUndefined vs j) (cs ! j) r)
                   js (insertedRecords new))"
      by blast
    let ?new = "CacheInsert r # ?y # new"
    have "trace st' = trace st @ ?new"
      using ih(1) t2 by simp
    moreover have "\<forall>f. filter (concerns f) ?new
        = (if f = g then map CacheInsert (insertedRecords ?new) else [])"
      using ih(2) isRecordOf_item [OF rec] by auto
    moreover have "?loop = Raises CacheWriteFailed st'
        \<or> (?loop = computeLoop env ex tn rest (buf @ map rowOfRecord (insertedRecords ?new)) st'
           \<and> list_all2 (\<lambda>j r. isRecordOf env g (uuidv4 env (u + j)) (nthOrUndefined vs j) (cs ! j) r)
                (j # js) (insertedRecords ?new))"
      using ih(3) step rec r(1) by auto
    ultimately show ?thesis by blast
  qed
qed

lemma addComputed_trace:
  "trace (addComputedLanceDbRows ex tn g rows st)
     = trace st @ (if table st \<or> \<not> ex then [] else [TableOpen tn])
         @ (if rows = [] then []
            else [if table st \<or> ex then TableAdd tn rows else TableCreate tn rows])
         @ [MarkComplete [g] Compute]"
  by (simp add: addComputedLanceDbRows_def markComplete_def tableAdd_def createTable_def
        openTable_def emit_def Let_def)

lemma computeLoop_file:
  assumes "computeFile env N i g u = (out, thr)"
  shows "\<exists>st1 b recs tail.
      trace st1 = trace st @ b
    \<and> (\<forall>f. f \<noteq> g \<longrightarrow> filter (concerns f) b = [])
    \<and> filter (concerns g) b = map CacheInsert recs @ tail
    \<and> (tail = [] \<or> tail \<in> set (fileEnds tn g recs))
    \<and> (recs \<noteq> [] \<or> tail \<noteq> [] \<longrightarrow> (\<exists>vs. embedCallOf env g = Some (EmbedReturns vs)))
    \<and> (tail \<noteq> [] \<longrightarrow> (\<exists>vs. embedCallOf env g = Some (EmbedReturns vs) \<and> fileRecords env g vs u recs))
    \<and> ((thr = None \<and> computeLoop env ex tn (out @ rest) [] st = computeLoop env ex tn rest [] st1
          \<and> ((\<exists>vs. embedCallOf env g = Some (EmbedReturns vs)) \<longrightarrow> tail \<noteq> []))
       \<or> (thr \<noteq> None \<and> computeLoop env ex tn out [] st = Returns () st1 \<and> recs = [] \<and> tail = [])
       \<or> (thr = None \<and> computeLoop env ex tn (out @ rest) [] st = Raises CacheWriteFailed st1
          \<and> tail = []))"
    (is "\<exists>st1 b recs tail. ?P st1 b recs tail")
proof -
  obtain chunks he where cc: "collectChunks (chunkerOutput env g) = (chunks, he)"
    by (cases "collectChunks (chunkerOutput env g)")
  then have cc': "collectChunks (chunkDocument env (path g) (readFile env (path g))
      (maxChunkSize (embeddingsProvider env)) (cacheKey g)) = (chunks, he)"
    by (simp add: chunkerOutput_def)
  let ?t = "map content chunks"
  show ?thesis
  proof (cases "he \<or> length chunks > 20")
    case True
    with assms cc' have o: "out = []" "thr = None"
      by (auto simp: computeFile_def split: if_splits)
    from True cc have e: "embedCallOf env g = None"
      by (auto simp: embedCallOf_def)
    have "?P st [] [] []"
      by (simp add: o e)
    then show ?thesis by blast
  next
    case False
    then have nh: "\<not> he" "\<not> length chunks > 20" by simp_all
    with cc have e: "embedCallOf env g = Some (embed (embeddingsProvider env) ?t)"
      by (simp add: embedCallOf_def)
    show ?thesis
    proof (cases "embed (embeddingsProvider env) ?t")
      case EmbedRaises
      with assms cc' nh have o: "out = [GenEmbedCall ?t, GenWarn EmbeddingFailedWarning]" "thr = None"
        by (auto simp: computeFile_def)
      have "?P (emit (Warn EmbeddingFailedWarning) (emit (EmbedCall ?t) st))
              [EmbedCall ?t, Warn EmbeddingFailedWarning] [] []"
        by (simp add: o e EmbedRaises emit_def)
      then show ?thesis by blast
    next
      case (EmbedReturns vs)
      show ?thesis
      proof (cases "None \<in> set vs")
        case True
        with assms cc' nh EmbedReturns have o: "out = [GenEmbedCall ?t]" "thr = Some EmbeddingUndefined"
          by (auto simp: computeFile_def)
        have "?P (emit (EmbedCall ?t) st) [EmbedCall ?t] [] []"
          by (simp add: o e EmbedReturns emit_def)
        then show ?thesis by blast
      next
        case False
        let ?rows = "map (createRow env N i g chunks vs u) [0..<length chunks]"
        from False assms cc' nh EmbedReturns have
          o: "out = GenEmbedCall ?t # ?rows @ [GenMarker g]" "thr = None"
          by (auto simp: computeFile_def)
        let ?st0 = "emit (EmbedCall ?t) st"
        have start: "computeLoop env ex tn (out @ rest) [] st
            = computeLoop env ex tn (?rows @ GenMarker g # rest) [] ?st0"
          by (simp add: o)
        from computeLoop_rows_any [of ?st0 g env ex tn N i chunks vs u "[0..<length chunks]"
            "GenMarker g # rest" "[]"]
        obtain st' new where
          n: "trace st' = trace ?st0 @ new"
             "\<forall>f. filter (concerns f) new = (if f = g then map CacheInsert (insertedRecords new) else [])"
             "computeLoop env ex tn (?rows @ GenMarker g # rest) [] ?st0 = Raises CacheWriteFailed st'
              \<or> (computeLoop env ex tn (?rows @ GenMarker g # rest) [] ?st0
                   = computeLoop env ex tn (GenMarker g # rest)
                       ([] @ map rowOfRecord (insertedRecords new)) st'
                 \<and> list_all2 (\<lambda>j r. isRecordOf env g (uuidv4 env (u + j)) (nthOrUndefined vs j)
                                       (chunks ! j) r)
                      [0..<length chunks] (insertedRecords new))"
          by blast
        let ?recs = "insertedRecords new"
        from n(3) show ?thesis
        proof
          assume f: "computeLoop env ex tn (?rows @ GenMarker g # rest) [] ?st0
                       = Raises CacheWriteFailed st'"
          have "?P st' (EmbedCall ?t # new) ?recs []"
            using n(1,2) f start by (simp add: o(2) e EmbedReturns emit_def)
          then show ?thesis by blast
        next
          assume "computeLoop env ex tn (?rows @ GenMarker g # rest) [] ?st0
                   = computeLoop env ex tn (GenMarker g # rest)
                       ([] @ map rowOfRecord (insertedRecords new)) st'
                 \<and> list_all2 (\<lambda>j r. isRecordOf env g (uuidv4 env (u + j)) (nthOrUndefined vs j)
                                       (chunks ! j) r)
                      [0..<length chunks] (insertedRecords new)"
          then have c: "computeLoop env ex tn (?rows @ GenMarker g # rest) [] ?st0
                   = computeLoop env ex tn (GenMarker g # rest) (map rowOfRecord ?recs) st'"
            and l: "list_all2 (\<lambda>j r. isRecordOf env g (uuidv4 env (u + j)) (nthOrUndefined vs j)
                                       (chunks ! j) r)
                      [0..<length chunks] ?recs"
            by simp_all
          from l have items: "\<forall>r\<in>set ?recs. itemOfRecord r = g"
            by (rule isRecordOf_items)
          from l cc have fr: "fileRecords env g vs u ?recs"
            by (simp add: fileRecords_def)
          let ?wr = "map rowOfRecord ?recs"
          let ?st2 = "addComputedLanceDbRows ex tn g ?wr st'"
          let ?ev = "(if table st' \<or> \<not> ex then [] else [TableOpen tn])
             @ (if ?wr = [] then []
                else [if table st' \<or> ex then TableAdd tn ?wr else TableCreate tn ?wr])
             @ [MarkComplete [g] Compute]"
          let ?tail = "(if ?recs = [] then []
                else [if table st' \<or> ex then TableAdd tn ?wr else TableCreate tn ?wr])
             @ [MarkComplete [g] Compute]"
          have t2: "trace ?st2 = trace st' @ ?ev"
            by (rule addComputed_trace)
          have img: "itemOfRow ` set ?wr \<subseteq> {g}"
            using items by auto
          have img2: "?recs \<noteq> [] \<Longrightarrow> g \<in> itemOfRow ` set ?wr"
            using items by (cases ?recs) auto
          have ev_g: "filter (concerns g) ?ev = ?tail"
            using img2 by simp
          have ev_f: "\<forall>f. f \<noteq> g \<longrightarrow> filter (concerns f) ?ev = []"
            using img by auto
          have tl: "?tail \<in> set (fileEnds tn g ?recs)"
            by (simp add: fileEnds_def)
          have cont: "computeLoop env ex tn (out @ rest) [] st = computeLoop env ex tn rest [] ?st2"
            using start c by simp
          have tr: "trace ?st2 = trace st @ (EmbedCall ?t # new @ ?ev)"
            using t2 n(1) by (simp add: emit_def)
          have pg: "filter (concerns g) (EmbedCall ?t # new @ ?ev) = map CacheInsert ?recs @ ?tail"
            using n(2) ev_g by simp
          have pf: "\<forall>f. f \<noteq> g \<longrightarrow> filter (concerns f) (EmbedCall ?t # new @ ?ev) = []"
            using n(2) ev_f by simp
          have "?P ?st2 (EmbedCall ?t # new @ ?ev) ?recs ?tail"
            using tr pg pf tl cont fr by (simp add: o(2) e EmbedReturns)
          then show ?thesis by blast
        qed
      qed
    qed
  qed
qed



lemma computePhase_trace:
  "trace (resultState (computePhase env ex tn items st))
     = trace (resultState (computeLoop env ex tn
         (fst (computeChunksFrom env (length items) 0 items (next_uuid st))) [] st))"
proof (cases "computeChunksFrom env (length items) 0 items (next_uuid st)")
  case (Pair out thrown)
  then show ?thesis
    by (cases "computeLoop env ex tn out [] st"; cases thrown)
       (simp_all add: computePhase_def computeChunks_def)
qed







text \<open>
  Two sequences of events that do not have this shape: one in which the file is marked complete
  and a record of it is inserted afterwards, and one in which each row is added to the table
  and the file is marked complete after every single row.
\<close>

lemma completion_before_rows_excluded:
  fixes r1 :: CacheRecord
  assumes "es = [MarkComplete [f] Compute, CacheInsert r1, TableCreate tn [rowOfRecord r1]]"
  shows "\<not> (\<exists>recs tail. es = map CacheInsert recs @ tail
             \<and> (tail = [] \<or> tail \<in> set (fileEnds tn f recs)))"
  using assms by (auto simp: fileEnds_def Cons_eq_append_conv Cons_eq_map_conv split: if_splits)

lemma completion_per_row_excluded:
  fixes r1 r2 :: CacheRecord
  assumes "es = [CacheInsert r1, TableCreate tn [rowOfRecord r1], MarkComplete [f] Compute,
                 CacheInsert r2, TableAdd tn [rowOfRecord r2], MarkComplete [f] Compute]"
  shows "\<not> (\<exists>recs tail. es = map CacheInsert recs @ tail
             \<and> (tail = [] \<or> tail \<in> set (fileEnds tn f recs)))"
  using assms by (auto simp: fileEnds_def Cons_eq_append_conv Cons_eq_map_conv split: if_splits)

lemma computeLoop_passes:
  "\<exists>new. trace (resultState (computeLoop env ex tn (fst (computeChunksFrom env N i items u)) [] st))
            = trace st @ new
     \<and> (\<forall>f. \<exists>blocks recs. filter (concerns f) new = concat blocks @ map CacheInsert recs
          \<and> (\<forall>b\<in>set blocks. \<exists>rs tail. b = map CacheInsert rs @ tail
                \<and> tail \<in> set (fileEnds tn f rs)
                \<and> (\<exists>vs w. embedCallOf env f = Some (EmbedReturns vs) \<and> fileRecords env f vs w rs))
          \<and> length blocks + (if recs = [] then 0 else 1) \<le> count_list items f)"
  (is "\<exists>new. ?T items i u st new \<and> (\<forall>f. ?P items f new)")
proof (induction items arbitrary: i u st)
  case Nil
  have "?P [] f []" for f
    by (intro exI [of _ "[]"]) simp
  then show ?case
    by (intro exI [of _ "[]"]) simp
next
  case (Cons g rest)
  obtain out thr where cf: "computeFile env N i g u = (out, thr)"
    by (cases "computeFile env N i g u")
  let ?u = "u + length (filter isGenRow out)"
  obtain out' thr' where cr: "computeChunksFrom env N (Suc i) rest ?u = (out', thr')"
    by (cases "computeChunksFrom env N (Suc i) rest ?u")
  from computeLoop_file [OF cf, of st tn ex out'] obtain st1 b recs tail where
    tr1: "trace st1 = trace st @ b"
    and bo: "\<forall>f. f \<noteq> g \<longrightarrow> filter (concerns f) b = []"
    and bg: "filter (concerns g) b = map CacheInsert recs @ tail"
    and te: "tail = [] \<or> tail \<in> set (fileEnds tn g recs)"
    and em: "recs \<noteq> [] \<or> tail \<noteq> [] \<longrightarrow> (\<exists>vs. embedCallOf env g = Some (EmbedReturns vs))"
    and fr: "tail \<noteq> [] \<longrightarrow> (\<exists>vs. embedCallOf env g = Some (EmbedReturns vs) \<and> fileRecords env g vs u recs)"
    and way: "(thr = None \<and> computeLoop env ex tn (out @ out') [] st = computeLoop env ex tn out' [] st1
          \<and> ((\<exists>vs. embedCallOf env g = Some (EmbedReturns vs)) \<longrightarrow> tail \<noteq> []))
       \<or> (thr \<noteq> None \<and> computeLoop env ex tn out [] st = Returns () st1 \<and> recs = [] \<and> tail = [])
       \<or> (thr = None \<and> computeLoop env ex tn (out @ out') [] st = Raises CacheWriteFailed st1
          \<and> tail = [])"
    by blast
  from way consider
    (cont) "thr = None" "computeLoop env ex tn (out @ out') [] st = computeLoop env ex tn out' [] st1"
      "(\<exists>vs. embedCallOf env g = Some (EmbedReturns vs)) \<longrightarrow> tail \<noteq> []"
    | (stop) "(thr \<noteq> None \<and> computeLoop env ex tn out [] st = Returns () st1)
         \<or> (thr = None \<and> computeLoop env ex tn (out @ out') [] st = Raises CacheWriteFailed st1)"
        "tail = []"
    by blast
  then show ?case
  proof cases
    case cont
    have gen: "computeChunksFrom env N i (g # rest) u = (out @ out', thr')"
      using cf cr cont(1) by simp
    from Cons.IH [of "Suc i" ?u st1] cr obtain new' where
      T': "trace (resultState (computeLoop env ex tn out' [] st1)) = trace st1 @ new'"
      and P': "\<And>f. ?P rest f new'"
      by auto
    let ?new = "b @ new'"
    have T: "?T (g # rest) i u st ?new"
      using gen cont(2) T' tr1 by simp
    have "?P (g # rest) f ?new" for f
    proof -
      from P' [of f] obtain blocks rc where
        p: "filter (concerns f) new' = concat blocks @ map CacheInsert rc"
           "\<forall>b\<in>set blocks. \<exists>rs tail. b = map CacheInsert rs @ tail
                \<and> tail \<in> set (fileEnds tn f rs)
                \<and> (\<exists>vs w. embedCallOf env f = Some (EmbedReturns vs) \<and> fileRecords env f vs w rs)"
           "length blocks + (if rc = [] then 0 else 1) \<le> count_list rest f"
        by blast
      show ?thesis
      proof (cases "f = g \<and> tail \<noteq> []")
        case True
        then have fg: "f = g" and t: "tail \<noteq> []" by simp_all
        let ?b = "map CacheInsert recs @ tail"
        from t te fr fg have "\<exists>rs tail. ?b = map CacheInsert rs @ tail
                \<and> tail \<in> set (fileEnds tn f rs)
                \<and> (\<exists>vs w. embedCallOf env f = Some (EmbedReturns vs) \<and> fileRecords env f vs w rs)"
          by blast
        with p(2) have "\<forall>b\<in>set (?b # blocks). \<exists>rs tail. b = map CacheInsert rs @ tail
                \<and> tail \<in> set (fileEnds tn f rs)
                \<and> (\<exists>vs w. embedCallOf env f = Some (EmbedReturns vs) \<and> fileRecords env f vs w rs)"
          by simp
        moreover have "filter (concerns f) ?new = concat (?b # blocks) @ map CacheInsert rc"
          using fg bg p(1) by simp
        moreover have "length (?b # blocks) + (if rc = [] then 0 else 1) \<le> count_list (g # rest) f"
          using fg p(3) by simp
        ultimately show ?thesis by blast
      next
        case False
        have "filter (concerns f) b = []"
        proof (cases "f = g")
          case True
          with False have "tail = []" by simp
          moreover with em cont(3) have "recs = []" by blast
          ultimately show ?thesis using bg True by simp
        next
          case False
          with bo show ?thesis by simp
        qed
        then have "filter (concerns f) ?new = concat blocks @ map CacheInsert rc"
          using p(1) by simp
        moreover have "length blocks + (if rc = [] then 0 else 1) \<le> count_list (g # rest) f"
          using p(3) by simp
        ultimately show ?thesis using p(2) by blast
      qed
    qed
    with T show ?thesis by blast
  next
    case stop
    from stop(1) cf cr have gen: "resultState (computeLoop env ex tn
        (fst (computeChunksFrom env N i (g # rest) u)) [] st) = st1"
      by (cases thr) auto
    have T: "?T (g # rest) i u st b"
      using gen tr1 by simp
    have "?P (g # rest) f b" for f
    proof (cases "f = g")
      case True
      have "filter (concerns f) b = concat [] @ map CacheInsert recs"
        using bg stop(2) True by simp
      moreover have "length ([] :: Event list list) + (if recs = [] then 0 else 1)
          \<le> count_list (g # rest) f"
        using True by simp
      ultimately show ?thesis
        by (intro exI [of _ "[]"] exI [of _ recs]) simp
    next
      case False
      with bo have "filter (concerns f) b = concat [] @ map CacheInsert []" by simp
      then show ?thesis
        by (intro exI [of _ "[]"]) simp
    qed
    with T show ?thesis by blast
  qed
qed

text \<open>
  The same for any list: the events of the compute phase that concern a file are a sequence of
  completed passes over the file, each of the shape above, at most one for each occurrence of
  the file in the list, followed, if the phase threw during a pass over the file, by the
  inserts of the cache records of that pass. On a list of distinct file versions there is at
  most one pass.
\<close>

lemma computePhase_passes:
  "\<exists>new. trace (resultState (computePhase env existing tableName items st)) = trace st @ new
     \<and> (\<forall>f. \<exists>blocks recs. filter (concerns f) new = concat blocks @ map CacheInsert recs
          \<and> (\<forall>b\<in>set blocks. \<exists>rs tail. b = map CacheInsert rs @ tail
                \<and> tail \<in> set (fileEnds tableName f rs)
                \<and> (\<exists>vs w. embedCallOf env f = Some (EmbedReturns vs) \<and> fileRecords env f vs w rs))
          \<and> length blocks + (if recs = [] then 0 else 1) \<le> count_list items f)"
  using computeLoop_passes [of env existing tableName "length items" 0 items "next_uuid st" st]
  unfolding computePhase_trace by blast

text \<open>The list that \<^verbatim>\<open>update\<close> runs the compute phase on has no duplicates if
  \<^verbatim>\<open>results.compute\<close> has none.\<close>

lemma localComputeItems_distinct:
  "distinct (compute results) \<Longrightarrow> distinct (localComputeItems env tag results repoName st0)"
  by (auto simp: localComputeItems_def remotePhase_def Let_def
           split: option.splits RemoteResponse.splits Result.splits)




subsection \<open>What update does with the rows of a file\<close>

lemma computeLoop_rows:
  assumes "\<forall>j\<in>set js. nthOrUndefined vs j \<noteq> None"
    and "distinct (map (\<lambda>j. uuidv4 env (u + j)) js)"
    and "\<forall>j\<in>set js. uuidv4 env (u + j) \<notin> cr_uuid ` set (cache st)"
  shows "\<exists>st' new.
           computeLoop env existing tn (map (createRow env N i item cs vs u) js @ rest) buf st
             = computeLoop env existing tn rest (buf @ map rowOfRecord (insertedRecords new)) st'
           \<and> trace st' = trace st @ new \<and> length (insertedRecords new) = length js
           \<and> itemOfRecord ` set (insertedRecords new) \<subseteq> {item}
           \<and> rowsWrittenTo tn new = [] \<and> completions Compute new = []
           \<and> cache st' = cache st @ insertedRecords new
           \<and> tables st' = tables st \<and> table st' = table st
           \<and> needToCreateTable st' = needToCreateTable st"
  using assms
proof (induction js arbitrary: buf st)
  case Nil
  show ?case
    by (intro exI [of _ st] exI [of _ "[]"]) simp
next
  case (Cons j js)
  from Cons.prems(1) obtain v where v: "nthOrUndefined vs j = Some v" by auto
  let ?row = "\<lparr>row_uuid = uuidv4 env (u + j), row_path = path item, row_cachekey = cacheKey item,
               row_vector = nthOrUndefined vs j\<rparr>"
  let ?r = "\<lparr>cr_uuid = uuidv4 env (u + j), cr_cacheKey = cacheKey item, cr_path = path item,
             cr_artifact_id = artifactId env, cr_vector = v,
             cr_startLine = startLine (cs ! j), cr_endLine = endLine (cs ! j),
             cr_contents = content (cs ! j)\<rparr>"
  let ?p = "(of_nat i + of_nat j / of_nat (length cs)) / of_nat N * (1 - progressReservedForTagging)"
  let ?d = "''Indexing '' @ getBasename env (filepath (cs ! j))"
  let ?y = "Yield \<lparr>progress = ?p, desc = ?d, status = Indexing\<rparr>"
  define st1 where "st1 = yield ?p ?d Indexing
                ((emit (CacheInsert ?r)
                    (st\<lparr>next_uuid := Suc (next_uuid st), cache := cache st @ [?r]\<rparr>))
                 \<lparr>accumulatedProgress := ?p\<rparr>)"
  have fresh: "uuidv4 env (u + j) \<notin> cr_uuid ` set (cache st)"
    using Cons.prems(3) by simp
  have row: "rowOfRecord ?r = ?row"
    by (simp add: rowOfRecord_def v)
  have step: "computeLoop env existing tn
                (map (createRow env N i item cs vs u) (j # js) @ rest) buf st
              = computeLoop env existing tn (map (createRow env N i item cs vs u) js @ rest)
                  (buf @ [?row]) st1"
    using fresh v
    by (simp add: st1_def createRow_def cacheInsert_def Let_def)
  have st1: "trace st1 = trace st @ [CacheInsert ?r, ?y]" "cache st1 = cache st @ [?r]"
    "tables st1 = tables st" "table st1 = table st"
    "needToCreateTable st1 = needToCreateTable st"
    by (simp_all add: st1_def yield_def emit_def)
  have p1: "\<forall>j\<in>set js. nthOrUndefined vs j \<noteq> None"
    using Cons.prems(1) by simp
  have p2: "distinct (map (\<lambda>j. uuidv4 env (u + j)) js)"
    using Cons.prems(2) by simp
  have p3: "\<forall>j'\<in>set js. uuidv4 env (u + j') \<notin> cr_uuid ` set (cache st1)"
  proof
    fix j' assume j': "j' \<in> set js"
    from Cons.prems(2) have "uuidv4 env (u + j) \<notin> (\<lambda>j. uuidv4 env (u + j)) ` set js"
      by simp
    with j' have "uuidv4 env (u + j') \<noteq> uuidv4 env (u + j)"
      by (metis image_eqI)
    moreover from Cons.prems(3) j' have "uuidv4 env (u + j') \<notin> cr_uuid ` set (cache st)"
      by simp
    ultimately show "uuidv4 env (u + j') \<notin> cr_uuid ` set (cache st1)"
      by (simp add: st1(2))
  qed
  from Cons.IH [of st1 "buf @ [?row]", OF p1 p2 p3] obtain st' new where
    ih: "computeLoop env existing tn (map (createRow env N i item cs vs u) js @ rest)
           (buf @ [?row]) st1
         = computeLoop env existing tn rest
             ((buf @ [?row]) @ map rowOfRecord (insertedRecords new)) st'"
      "trace st' = trace st1 @ new" "length (insertedRecords new) = length js"
      "itemOfRecord ` set (insertedRecords new) \<subseteq> {item}"
      "rowsWrittenTo tn new = []" "completions Compute new = []"
      "cache st' = cache st1 @ insertedRecords new"
      "tables st' = tables st1" "table st' = table st1"
      "needToCreateTable st' = needToCreateTable st1"
    by blast
  let ?new = "CacheInsert ?r # ?y # new"
  have "computeLoop env existing tn
          (map (createRow env N i item cs vs u) (j # js) @ rest) buf st
        = computeLoop env existing tn rest (buf @ map rowOfRecord (insertedRecords ?new)) st'"
    using step ih(1) row by simp
  moreover have "trace st' = trace st @ ?new"
    using ih(2) st1(1) by simp
  moreover have "length (insertedRecords ?new) = length (j # js)"
    using ih(3) by simp
  moreover have "itemOfRecord ` set (insertedRecords ?new) \<subseteq> {item}"
    using ih(4) by (simp add: itemOfRecord_def item_eta)
  moreover have "rowsWrittenTo tn ?new = []" "completions Compute ?new = []"
    using ih(5,6) by simp_all
  moreover have "cache st' = cache st @ insertedRecords ?new"
    using ih(7) st1(2) by simp
  moreover have "tables st' = tables st" "table st' = table st"
    "needToCreateTable st' = needToCreateTable st"
    using ih(8,9,10) st1(3,4,5) by simp_all
  ultimately show ?case by blast
qed

text \<open>
  What \<^verbatim>\<open>update\<close> does with the rows and the marker of a file: if the provider has
  returned a vector for each of the \<open>m\<close> chunks and the uuids drawn for the rows are new, it
  inserts \<open>m\<close> records into the cache, adds their \<open>m\<close> rows to the table of the tag in one
  insert, and marks the file complete, before it goes on with the next file.
\<close>

lemma computeLoop_indexes_file:
  assumes "\<forall>j<m. nthOrUndefined vs j \<noteq> None"
    and "distinct (map (\<lambda>j. uuidv4 env (u + j)) [0..<m])"
    and "\<forall>j<m. uuidv4 env (u + j) \<notin> cr_uuid ` set (cache st)"
  shows "\<exists>st' new.
           computeLoop env existing tn
             (GenEmbedCall texts # map (createRow env N i item cs vs u) [0..<m]
                @ GenMarker item # rest) [] st
             = computeLoop env existing tn rest [] st'
           \<and> trace st' = trace st @ new \<and> length (insertedRecords new) = m
           \<and> itemOfRecord ` set (insertedRecords new) \<subseteq> {item}
           \<and> rowsWrittenTo tn new = map rowOfRecord (insertedRecords new)
           \<and> completions Compute new = [[item]]
           \<and> cache st' = cache st @ insertedRecords new"
proof -
  let ?st0 = "emit (EmbedCall texts) st"
  from assms obtain st1 new1 where
    l: "computeLoop env existing tn
          (map (createRow env N i item cs vs u) [0..<m] @ GenMarker item # rest) [] ?st0
        = computeLoop env existing tn (GenMarker item # rest)
            ([] @ map rowOfRecord (insertedRecords new1)) st1"
      "trace st1 = trace ?st0 @ new1" "length (insertedRecords new1) = length [0..<m]"
      "itemOfRecord ` set (insertedRecords new1) \<subseteq> {item}"
      "rowsWrittenTo tn new1 = []" "completions Compute new1 = []"
      "cache st1 = cache ?st0 @ insertedRecords new1"
    using computeLoop_rows [of "[0..<m]" vs env u ?st0 existing tn N i item cs
        "GenMarker item # rest" "[]"]
    by (auto simp: emit_def)
  let ?rows = "map rowOfRecord (insertedRecords new1)"
  let ?st2 = "addComputedLanceDbRows existing tn item ?rows st1"
  let ?mc = "MarkComplete [item] Compute"
  let ?ev = "if table st1 then (if ?rows = [] then [?mc] else [TableAdd tn ?rows, ?mc])
             else if existing then
               (if ?rows = [] then [TableOpen tn, ?mc] else [TableOpen tn, TableAdd tn ?rows, ?mc])
             else (if ?rows = [] then [?mc] else [TableCreate tn ?rows, ?mc])"
  have t2: "trace ?st2 = trace st1 @ ?ev" and c2: "cache ?st2 = cache st1"
    by (simp_all add: addComputedLanceDbRows_def markComplete_def tableAdd_def createTable_def
          openTable_def emit_def Let_def)
  have ev: "insertedRecords ?ev = []" "rowsWrittenTo tn ?ev = ?rows" "completions Compute ?ev = [[item]]"
    by simp_all
  have "computeLoop env existing tn
             (GenEmbedCall texts # map (createRow env N i item cs vs u) [0..<m]
                @ GenMarker item # rest) [] st
        = computeLoop env existing tn rest [] ?st2"
    using l(1) by simp
  moreover have "trace ?st2 = trace st @ (EmbedCall texts # new1 @ ?ev)"
    using t2 l(2) by (simp add: emit_def)
  moreover have "length (insertedRecords (EmbedCall texts # new1 @ ?ev)) = m"
    using l(3) ev(1) by simp
  moreover have "itemOfRecord ` set (insertedRecords (EmbedCall texts # new1 @ ?ev)) \<subseteq> {item}"
    using l(4) ev(1) by simp
  moreover have "rowsWrittenTo tn (EmbedCall texts # new1 @ ?ev)
      = map rowOfRecord (insertedRecords (EmbedCall texts # new1 @ ?ev))"
    using l(5) ev(1,2) by simp
  moreover have "completions Compute (EmbedCall texts # new1 @ ?ev) = [[item]]"
    using l(6) ev(3) by simp
  moreover have "cache ?st2 = cache st @ insertedRecords (EmbedCall texts # new1 @ ?ev)"
    using c2 l(7) ev(1) by (simp add: emit_def)
  ultimately show ?thesis by blast
qed

end
